theory Spec2Isabelle
  imports Main "HOL-Library.AList"
begin

section \<open>Active-run registry (src/agents/pi-embedded-runner/runs.ts)\<close>

text \<open>
  An \<open>EmbeddedPiQueueHandle\<close> is an object compared by identity (\<open>===\<close>), so a handle
  is modelled by its reference. What its capabilities \<open>isStreaming()\<close> and
  \<open>isCompacting()\<close> answer is outside the registry: the caller of the model passes the
  answers as a \<open>handle_env\<close>. Calls of \<open>queueMessage\<close> and \<open>abort\<close> are recorded in logs.
  The diagnostic logger is a pure side channel and is left out.
\<close>

type_synonym handle_ref = nat

record handle_env =
  isStreaming :: "handle_ref \<Rightarrow> bool"
  isCompacting :: "handle_ref \<Rightarrow> bool"

text \<open>
  The closure of a waiter's \<open>setTimeout\<close> callback captures \<open>sessionId\<close>, the \<open>Set\<close>
  object \<open>waiters\<close> and the waiter itself; the delay is \<open>Math.max(100, timeoutMs)\<close>.
\<close>

record waiter_timer =
  tSession :: string
  tSet :: nat
  tDelay :: int

text \<open>
  The three module-level maps. \<open>SESSION_KEY_TO_SESSION_ID\<close> is iterated in insertion
  order by \<open>clearActiveEmbeddedRun\<close>, so it is an association list in insertion order
  (\<open>AList.update\<close> replaces in place or appends, as \<open>Map.set\<close> does). The values of
  \<open>EMBEDDED_RUN_WAITERS\<close> are \<open>Set\<close> objects shared with the timer closures, so the map
  holds their addresses and \<open>waiterSets\<close> is the store of the objects (a \<open>Set\<close> keeps
  insertion order and has no duplicates). A waiter is identified by a number;
  \<open>timers\<close> holds the pending timeout of each waiter, \<open>resolved\<close> every call of a
  waiter's \<open>resolve\<close>, in order.
\<close>

record runs_state =
  ACTIVE_EMBEDDED_RUNS :: "string \<rightharpoonup> handle_ref"
  SESSION_KEY_TO_SESSION_ID :: "(string \<times> string) list"
  EMBEDDED_RUN_WAITERS :: "string \<rightharpoonup> nat"
  waiterSets :: "nat \<Rightarrow> nat list"
  nextSet :: nat
  nextWaiter :: nat
  timers :: "nat \<rightharpoonup> waiter_timer"
  resolved :: "(nat \<times> bool) list"
  queuedMessages :: "(handle_ref \<times> string) list"
  abortCalls :: "handle_ref list"

definition runs_init :: runs_state where
  "runs_init = \<lparr> ACTIVE_EMBEDDED_RUNS = Map.empty, SESSION_KEY_TO_SESSION_ID = [],
     EMBEDDED_RUN_WAITERS = Map.empty, waiterSets = (\<lambda>_. []), nextSet = 0, nextWaiter = 0,
     timers = Map.empty, resolved = [], queuedMessages = [], abortCalls = [] \<rparr>"

definition queueEmbeddedPiMessage ::
  "string \<Rightarrow> string \<Rightarrow> handle_env \<Rightarrow> runs_state \<Rightarrow> bool \<times> runs_state" where
  "queueEmbeddedPiMessage sessionId text env s =
     (case ACTIVE_EMBEDDED_RUNS s sessionId of
        None \<Rightarrow> (False, s)
      | Some handle \<Rightarrow>
          if \<not> isStreaming env handle then (False, s)
          else if isCompacting env handle then (False, s)
          else (True, s\<lparr>queuedMessages := queuedMessages s @ [(handle, text)]\<rparr>))"

definition abortEmbeddedPiRun :: "string \<Rightarrow> runs_state \<Rightarrow> bool \<times> runs_state" where
  "abortEmbeddedPiRun sessionId s =
     (case ACTIVE_EMBEDDED_RUNS s sessionId of
        None \<Rightarrow> (False, s)
      | Some handle \<Rightarrow> (True, s\<lparr>abortCalls := abortCalls s @ [handle]\<rparr>))"

definition isEmbeddedPiRunActive :: "string \<Rightarrow> runs_state \<Rightarrow> bool" where
  "isEmbeddedPiRunActive sessionId s = (ACTIVE_EMBEDDED_RUNS s sessionId \<noteq> None)"

definition resolveActiveSessionId :: "string \<Rightarrow> runs_state \<Rightarrow> string option" where
  "resolveActiveSessionId sessionKey s =
     (case map_of (SESSION_KEY_TO_SESSION_ID s) sessionKey of
        None \<Rightarrow> None
      | Some mappedSessionId \<Rightarrow>
          if mappedSessionId \<noteq> [] \<and> ACTIVE_EMBEDDED_RUNS s mappedSessionId \<noteq> None
          then Some mappedSessionId else None)"

definition isEmbeddedPiRunStreaming :: "string \<Rightarrow> handle_env \<Rightarrow> runs_state \<Rightarrow> bool" where
  "isEmbeddedPiRunStreaming sessionId env s =
     (case ACTIVE_EMBEDDED_RUNS s sessionId of
        None \<Rightarrow> False
      | Some handle \<Rightarrow> isStreaming env handle)"

text \<open>\<open>Set.add\<close> and \<open>Set.delete\<close> on an insertion-ordered set.\<close>

definition set_add :: "nat \<Rightarrow> nat list \<Rightarrow> nat list" where
  "set_add w ws = (if w \<in> set ws then ws else ws @ [w])"

definition set_delete :: "nat \<Rightarrow> nat list \<Rightarrow> nat list" where
  "set_delete w ws = filter (\<lambda>v. v \<noteq> w) ws"

text \<open>
  The result of \<open>waitForEmbeddedPiRunEnd\<close> is a promise: either one that is already
  resolved (\<open>Promise.resolve(true)\<close>, or the executor called \<open>resolve\<close> itself), or the
  promise of a registered waiter.
\<close>

datatype wait_result = Immediate bool | Waiting nat

definition waitForEmbeddedPiRunEnd ::
  "string \<Rightarrow> int \<Rightarrow> runs_state \<Rightarrow> wait_result \<times> runs_state" where
  "waitForEmbeddedPiRunEnd sessionId timeoutMs s =
     (if sessionId = [] \<or> ACTIVE_EMBEDDED_RUNS s sessionId = None then (Immediate True, s)
      else
        let (waiters, s1) =
              (case EMBEDDED_RUN_WAITERS s sessionId of
                 Some a \<Rightarrow> (a, s)
               | None \<Rightarrow> (nextSet s,
                   s\<lparr>waiterSets := (waiterSets s)(nextSet s := []), nextSet := Suc (nextSet s)\<rparr>));
            waiter = nextWaiter s1;
            s2 = s1\<lparr>nextWaiter := Suc waiter,
                   timers := (timers s1)(waiter \<mapsto>
                     \<lparr>tSession = sessionId, tSet = waiters, tDelay = max 100 timeoutMs\<rparr>)\<rparr>;
            s3 = s2\<lparr>waiterSets := (waiterSets s2)(waiters := set_add waiter (waiterSets s2 waiters))\<rparr>;
            s4 = s3\<lparr>EMBEDDED_RUN_WAITERS := (EMBEDDED_RUN_WAITERS s3)(sessionId \<mapsto> waiters)\<rparr>
        in if ACTIVE_EMBEDDED_RUNS s4 sessionId = None then
             let s5 = s4\<lparr>waiterSets := (waiterSets s4)(waiters := set_delete waiter (waiterSets s4 waiters))\<rparr>;
                 s6 = (if waiterSets s5 waiters = []
                       then s5\<lparr>EMBEDDED_RUN_WAITERS := (EMBEDDED_RUN_WAITERS s5)(sessionId := None)\<rparr>
                       else s5);
                 s7 = s6\<lparr>timers := (timers s6)(waiter := None)\<rparr>
             in (Immediate True, s7\<lparr>resolved := resolved s7 @ [(waiter, True)]\<rparr>)
           else (Waiting waiter, s4))"

text \<open>
  The \<open>setTimeout\<close> callback of a waiter. It runs only while the timer is pending;
  a timer that has fired or was cleared has no entry in \<open>timers\<close>.
\<close>

definition waiterTimeout :: "nat \<Rightarrow> runs_state \<Rightarrow> runs_state" where
  "waiterTimeout waiter s =
     (case timers s waiter of
        None \<Rightarrow> s
      | Some t \<Rightarrow>
          let s0 = s\<lparr>timers := (timers s)(waiter := None)\<rparr>;
              s1 = s0\<lparr>waiterSets := (waiterSets s0)(tSet t := set_delete waiter (waiterSets s0 (tSet t)))\<rparr>;
              s2 = (if waiterSets s1 (tSet t) = []
                    then s1\<lparr>EMBEDDED_RUN_WAITERS := (EMBEDDED_RUN_WAITERS s1)(tSession t := None)\<rparr>
                    else s1)
          in s2\<lparr>resolved := resolved s2 @ [(waiter, False)]\<rparr>)"

text \<open>The loop of \<open>notifyEmbeddedRunEnded\<close>: \<open>clearTimeout\<close>, then \<open>resolve(true)\<close>.\<close>

fun notifyWaiters :: "nat list \<Rightarrow> runs_state \<Rightarrow> runs_state" where
  "notifyWaiters [] s = s"
| "notifyWaiters (waiter # rest) s =
     notifyWaiters rest
       (s\<lparr>timers := (timers s)(waiter := None), resolved := resolved s @ [(waiter, True)]\<rparr>)"

definition notifyEmbeddedRunEnded :: "string \<Rightarrow> runs_state \<Rightarrow> runs_state" where
  "notifyEmbeddedRunEnded sessionId s =
     (case EMBEDDED_RUN_WAITERS s sessionId of
        None \<Rightarrow> s
      | Some a \<Rightarrow>
          if waiterSets s a = [] then s
          else notifyWaiters (waiterSets s a)
                 (s\<lparr>EMBEDDED_RUN_WAITERS := (EMBEDDED_RUN_WAITERS s)(sessionId := None)\<rparr>))"

definition setActiveEmbeddedRun ::
  "string \<Rightarrow> handle_ref \<Rightarrow> string option \<Rightarrow> runs_state \<Rightarrow> runs_state" where
  "setActiveEmbeddedRun sessionId handle sessionKey s =
     (let s1 = s\<lparr>ACTIVE_EMBEDDED_RUNS := (ACTIVE_EMBEDDED_RUNS s)(sessionId \<mapsto> handle)\<rparr>
      in case sessionKey of
           None \<Rightarrow> s1
         | Some k \<Rightarrow>
             if k = [] then s1
             else s1\<lparr>SESSION_KEY_TO_SESSION_ID :=
                        AList.update k sessionId (SESSION_KEY_TO_SESSION_ID s1)\<rparr>)"

text \<open>
  The \<open>for ... of\<close> loop over \<open>SESSION_KEY_TO_SESSION_ID\<close>: the first entry, in
  insertion order, whose value is \<open>sessionId\<close> is deleted by its key, then \<open>break\<close>.
\<close>

definition deleteFirstAlias :: "string \<Rightarrow> (string \<times> string) list \<Rightarrow> (string \<times> string) list" where
  "deleteFirstAlias sessionId m =
     (case find (\<lambda>(key, mapped). mapped = sessionId) m of
        None \<Rightarrow> m
      | Some (key, mapped) \<Rightarrow> AList.delete key m)"

definition clearActiveEmbeddedRun :: "string \<Rightarrow> handle_ref \<Rightarrow> runs_state \<Rightarrow> runs_state" where
  "clearActiveEmbeddedRun sessionId handle s =
     (if ACTIVE_EMBEDDED_RUNS s sessionId = Some handle then
        let s1 = s\<lparr>ACTIVE_EMBEDDED_RUNS := (ACTIVE_EMBEDDED_RUNS s)(sessionId := None)\<rparr>;
            s2 = s1\<lparr>SESSION_KEY_TO_SESSION_ID :=
                       deleteFirstAlias sessionId (SESSION_KEY_TO_SESSION_ID s1)\<rparr>
        in notifyEmbeddedRunEnded sessionId s2
      else s)"

text \<open>
  Everything that can happen to the registry: a call of one of the exported functions,
  or the timeout of a waiter firing.
\<close>

datatype runs_event =
    SetActive string handle_ref "string option"
  | ClearActive string handle_ref
  | WaitForEnd string int
  | WaiterTimeout nat
  | QueueMessage string string handle_env
  | Abort string

fun runs_step :: "runs_event \<Rightarrow> runs_state \<Rightarrow> runs_state" where
  "runs_step (SetActive sessionId handle sessionKey) s = setActiveEmbeddedRun sessionId handle sessionKey s"
| "runs_step (ClearActive sessionId handle) s = clearActiveEmbeddedRun sessionId handle s"
| "runs_step (WaitForEnd sessionId timeoutMs) s = snd (waitForEmbeddedPiRunEnd sessionId timeoutMs s)"
| "runs_step (WaiterTimeout waiter) s = waiterTimeout waiter s"
| "runs_step (QueueMessage sessionId text env) s = snd (queueEmbeddedPiMessage sessionId text env s)"
| "runs_step (Abort sessionId) s = snd (abortEmbeddedPiRun sessionId s)"

fun runs_run :: "runs_event list \<Rightarrow> runs_state \<Rightarrow> runs_state" where
  "runs_run [] s = s"
| "runs_run (e # es) s = runs_run es (runs_step e s)"

text \<open>
  The registry invariant that every reachable state satisfies: the alias map has one entry
  per key; a pending timer belongs to a waiter that sits in the \<open>Set\<close> registered for its
  session; a registered \<open>Set\<close> is not empty, has no duplicates and holds only waiters whose
  timer is pending; and a waiter is resolved at most once, its timer gone.
\<close>

definition runs_inv :: "runs_state \<Rightarrow> bool" where
  "runs_inv s \<longleftrightarrow>
     distinct (map fst (SESSION_KEY_TO_SESSION_ID s))
   \<and> (\<forall>w t. timers s w = Some t \<longrightarrow>
         w < nextWaiter s \<and> EMBEDDED_RUN_WAITERS s (tSession t) = Some (tSet t)
         \<and> w \<in> set (waiterSets s (tSet t)))
   \<and> (\<forall>sid a. EMBEDDED_RUN_WAITERS s sid = Some a \<longrightarrow>
         a < nextSet s \<and> waiterSets s a \<noteq> [] \<and> distinct (waiterSets s a)
         \<and> (\<forall>w\<in>set (waiterSets s a). \<exists>t. timers s w = Some t \<and> tSession t = sid \<and> tSet t = a))
   \<and> distinct (map fst (resolved s))
   \<and> (\<forall>p\<in>set (resolved s). fst p < nextWaiter s \<and> timers s (fst p) = None)"

text \<open>The \<open>Set\<close> a new waiter of \<open>sessionId\<close> joins: the registered one, or a new object.\<close>

definition waitSet :: "string \<Rightarrow> runs_state \<Rightarrow> nat" where
  "waitSet sid s = (case EMBEDDED_RUN_WAITERS s sid of Some a \<Rightarrow> a | None \<Rightarrow> nextSet s)"

section \<open>Decimal rendering of numbers in template strings\<close>

text \<open>
  A template string renders a non-negative integer below \<open>10^21\<close> in decimal digits.
\<close>

definition digitChar :: "nat \<Rightarrow> char" where
  "digitChar d = ''0123456789'' ! d"

function showNat :: "nat \<Rightarrow> string" where
  "showNat n = (if n < 10 then [digitChar n] else showNat (n div 10) @ [digitChar (n mod 10)])"
  by pat_completeness auto
termination
  by (relation "measure id") auto

section \<open>Typing controller (createTypingController)\<close>

datatype typing_phase = Thinking | Typing

text \<open>
  The injected callbacks, as the log of their calls records them. \<open>Log\<close> carries the
  message.
\<close>

datatype typing_callback =
    OnReplyStart
  | OnCleanup
  | OnPhaseChange typing_phase
  | Log string

text \<open>
  The parameters of \<open>createTypingController\<close>. An optional callback is present or not;
  \<open>isSilentReplyText\<close> is imported from \<open>tokens.js\<close>, which is not part of the sources at
  hand, and is taken as a parameter. The numbers are integers here.
\<close>

record typing_params =
  hasOnReplyStart :: bool
  hasOnCleanup :: bool
  hasOnPhaseChange :: bool
  hasLog :: bool
  typingIntervalSeconds :: int
  typingTtlMs :: int
  silentToken :: string
  isSilentReplyText :: "string \<Rightarrow> string \<Rightarrow> bool"

definition typingIntervalMs :: "typing_params \<Rightarrow> int" where
  "typingIntervalMs p = typingIntervalSeconds p * 1000"

text \<open>
  A timer created by \<open>setInterval\<close> or \<open>setTimeout\<close> lives in \<open>jsTimers\<close> under its
  handle until it is cleared (or, for a timeout, has fired). The variables
  \<open>typingTimer\<close> and \<open>typingTtlTimer\<close> hold a handle or \<open>undefined\<close>.
\<close>

datatype js_timer = Interval int | Timeout int

record typing_ctrl =
  started :: bool
  active :: bool
  runComplete :: bool
  dispatchIdle :: bool
  phase :: "typing_phase option"
  transitioning :: bool
  sealed :: bool
  typingTimer :: "nat option"
  typingTtlTimer :: "nat option"
  jsTimers :: "nat \<rightharpoonup> js_timer"
  nextTimer :: nat
  callbackLog :: "typing_callback list"

definition typing_init :: typing_ctrl where
  "typing_init = \<lparr> started = False, active = False, runComplete = False, dispatchIdle = False,
     phase = None, transitioning = False, sealed = False, typingTimer = None,
     typingTtlTimer = None, jsTimers = Map.empty, nextTimer = 0, callbackLog = [] \<rparr>"

definition invoke :: "bool \<Rightarrow> typing_callback \<Rightarrow> typing_ctrl \<Rightarrow> typing_ctrl" where
  "invoke present cb c = (if present then c\<lparr>callbackLog := callbackLog c @ [cb]\<rparr> else c)"

definition clearTimer :: "nat \<Rightarrow> typing_ctrl \<Rightarrow> typing_ctrl" where
  "clearTimer h c = c\<lparr>jsTimers := (jsTimers c)(h := None)\<rparr>"

definition formatTypingTtl :: "int \<Rightarrow> string" where
  "formatTypingTtl ms =
     (if ms mod 60000 = 0 then showNat (nat (ms div 60000)) @ ''m''
      else showNat (nat ((ms + 500) div 1000)) @ ''s'')"

definition resetCycle :: "typing_ctrl \<Rightarrow> typing_ctrl" where
  "resetCycle c = c\<lparr>started := False, active := False, runComplete := False,
     dispatchIdle := False, transitioning := False, phase := None\<rparr>"

definition cleanup :: "typing_params \<Rightarrow> typing_ctrl \<Rightarrow> typing_ctrl" where
  "cleanup p c =
     (if sealed c then c
      else
        let c1 = (case typingTtlTimer c of
                    None \<Rightarrow> c
                  | Some h \<Rightarrow> (clearTimer h c)\<lparr>typingTtlTimer := None\<rparr>);
            c2 = (case typingTimer c1 of
                    None \<Rightarrow> c1
                  | Some h \<Rightarrow> (clearTimer h c1)\<lparr>typingTimer := None\<rparr>);
            c3 = (if active c2 then invoke (hasOnCleanup p) OnCleanup c2 else c2)
        in (resetCycle c3)\<lparr>sealed := True\<rparr>)"

definition refreshTypingTtl :: "typing_params \<Rightarrow> typing_ctrl \<Rightarrow> typing_ctrl" where
  "refreshTypingTtl p c =
     (if sealed c then c
      else if typingIntervalMs p \<le> 0 then c
      else if typingTtlMs p \<le> 0 then c
      else
        let c1 = (case typingTtlTimer c of None \<Rightarrow> c | Some h \<Rightarrow> clearTimer h c)
        in c1\<lparr>typingTtlTimer := Some (nextTimer c1),
               jsTimers := (jsTimers c1)(nextTimer c1 \<mapsto> Timeout (typingTtlMs p)),
               nextTimer := Suc (nextTimer c1)\<rparr>)"

text \<open>The callback of the TTL timeout \<open>h\<close>; it runs only if the timeout is still live.\<close>

definition typingTtlFired :: "typing_params \<Rightarrow> nat \<Rightarrow> typing_ctrl \<Rightarrow> typing_ctrl" where
  "typingTtlFired p h c =
     (case jsTimers c h of
        Some (Timeout ms) \<Rightarrow>
          let c1 = clearTimer h c
          in if typingTimer c1 = None then c1
             else cleanup p
                    (invoke (hasLog p)
                       (Log (''typing TTL reached ('' @ formatTypingTtl (typingTtlMs p)
                             @ ''); stopping typing indicator'')) c1)
      | _ \<Rightarrow> c)"

definition isActive :: "typing_ctrl \<Rightarrow> bool" where
  "isActive c = (active c \<and> \<not> sealed c)"

definition triggerTyping :: "typing_params \<Rightarrow> typing_ctrl \<Rightarrow> typing_ctrl" where
  "triggerTyping p c = (if sealed c then c else invoke (hasOnReplyStart p) OnReplyStart c)"

text \<open>The callback of a typing interval \<open>h\<close>; it runs only while the interval is live.\<close>

definition typingTimerTick :: "typing_params \<Rightarrow> nat \<Rightarrow> typing_ctrl \<Rightarrow> typing_ctrl" where
  "typingTimerTick p h c =
     (case jsTimers c h of
        Some (Interval ms) \<Rightarrow> triggerTyping p c
      | _ \<Rightarrow> c)"

definition ensureStart :: "typing_params \<Rightarrow> typing_ctrl \<Rightarrow> typing_ctrl" where
  "ensureStart p c =
     (if sealed c then c
      else if runComplete c then c
      else
        let c1 = (if \<not> active c then c\<lparr>active := True\<rparr> else c)
        in if started c1 then c1
           else triggerTyping p (c1\<lparr>started := True\<rparr>))"

definition maybeStopOnIdle :: "typing_params \<Rightarrow> typing_ctrl \<Rightarrow> typing_ctrl" where
  "maybeStopOnIdle p c =
     (if \<not> active c then c
      else if runComplete c \<and> dispatchIdle c then cleanup p c
      else c)"

text \<open>
  \<open>startThinkingLoop\<close> and \<open>startTypingLoop\<close> are \<open>async\<close>. The model of a call is the
  part that runs at once, up to the first \<open>await\<close> that is reached, and a flag that
  says whether the call is suspended at \<open>await ensureStart()\<close>; the rest of such a
  call, \<open>typingTimer = setInterval(...)\<close>, is \<open>armTypingTimer\<close> and runs later.
\<close>

definition armTypingTimer :: "typing_params \<Rightarrow> typing_ctrl \<Rightarrow> typing_ctrl" where
  "armTypingTimer p c =
     c\<lparr>typingTimer := Some (nextTimer c),
       jsTimers := (jsTimers c)(nextTimer c \<mapsto> Interval (typingIntervalMs p)),
       nextTimer := Suc (nextTimer c)\<rparr>"

definition startThinkingLoop :: "typing_params \<Rightarrow> typing_ctrl \<Rightarrow> typing_ctrl \<times> bool" where
  "startThinkingLoop p c =
     (if sealed c then (c, False)
      else if runComplete c then (c, False)
      else
        let c1 = (if phase c = None
                  then invoke (hasOnPhaseChange p) (OnPhaseChange Thinking) (c\<lparr>phase := Some Thinking\<rparr>)
                  else c);
            c2 = refreshTypingTtl p c1
        in if \<not> hasOnReplyStart p then (c2, False)
           else if typingIntervalMs p \<le> 0 then (c2, False)
           else if typingTimer c2 \<noteq> None then (c2, False)
           else (ensureStart p c2, True))"

definition startTypingLoop :: "typing_params \<Rightarrow> typing_ctrl \<Rightarrow> typing_ctrl \<times> bool" where
  "startTypingLoop p c =
     (if sealed c then (c, False)
      else if runComplete c then (c, False)
      else
        let upgraded = (phase c = Some Thinking);
            c1 = (if phase c = None \<or> phase c = Some Thinking
                  then invoke (hasOnPhaseChange p) (OnPhaseChange Typing) (c\<lparr>phase := Some Typing\<rparr>)
                  else c);
            c2 = refreshTypingTtl p c1
        in if \<not> hasOnReplyStart p then (c2, False)
           else if typingIntervalMs p \<le> 0 then (c2, False)
           else if typingTimer c2 \<noteq> None then
             (if upgraded then (triggerTyping p c2, False) else (c2, False))
           else (ensureStart p c2, True))"

text \<open>\<open>String.prototype.trim\<close> on the ASCII white space.\<close>

definition isSpace :: "char \<Rightarrow> bool" where
  "isSpace ch = (ch \<in> set [CHR '' '', CHR 0x09, CHR 0x0A, CHR 0x0B, CHR 0x0C, CHR 0x0D])"

definition trim :: "string \<Rightarrow> string" where
  "trim t = rev (dropWhile isSpace (rev (dropWhile isSpace t)))"

definition startTypingOnText ::
  "typing_params \<Rightarrow> string option \<Rightarrow> typing_ctrl \<Rightarrow> typing_ctrl \<times> bool" where
  "startTypingOnText p text c =
     (if sealed c then (c, False)
      else case text of
        None \<Rightarrow> (c, False)
      | Some t \<Rightarrow>
          let trimmed = trim t
          in if trimmed = [] then (c, False)
             else if silentToken p \<noteq> [] \<and> isSilentReplyText p trimmed (silentToken p) then (c, False)
             else startTypingLoop p (refreshTypingTtl p c))"

definition markRunComplete :: "typing_params \<Rightarrow> typing_ctrl \<Rightarrow> typing_ctrl" where
  "markRunComplete p c = maybeStopOnIdle p (c\<lparr>runComplete := True\<rparr>)"

definition markDispatchIdle :: "typing_params \<Rightarrow> typing_ctrl \<Rightarrow> typing_ctrl" where
  "markDispatchIdle p c =
     (let c1 = maybeStopOnIdle p (c\<lparr>dispatchIdle := True\<rparr>)
      in if transitioning c1 \<and> active c1 \<and> \<not> sealed c1
         then triggerTyping p (c1\<lparr>transitioning := False\<rparr>)
         else c1)"

definition transitionToFollowup :: "typing_params \<Rightarrow> typing_ctrl \<Rightarrow> typing_ctrl" where
  "transitionToFollowup p c =
     (if sealed c then c
      else
        let c1 = c\<lparr>started := False, runComplete := False, transitioning := True\<rparr>;
            c2 = (if phase c1 \<noteq> Some Thinking
                  then triggerTyping p
                         (invoke (hasOnPhaseChange p) (OnPhaseChange Thinking)
                            (c1\<lparr>phase := Some Thinking\<rparr>))
                  else c1)
        in if hasOnReplyStart p \<and> typingIntervalMs p > 0 then
             let c3 = (case typingTimer c2 of None \<Rightarrow> c2 | Some h \<Rightarrow> clearTimer h c2)
             in c3\<lparr>typingTimer := Some (nextTimer c3),
                    jsTimers := (jsTimers c3)(nextTimer c3 \<mapsto> Interval (min (typingIntervalMs p) 2000)),
                    nextTimer := Suc (nextTimer c3)\<rparr>
           else c2)"

definition resetForFollowup :: "typing_ctrl \<Rightarrow> typing_ctrl" where
  "resetForFollowup c =
     (let c1 = (case typingTtlTimer c of
                  None \<Rightarrow> c
                | Some h \<Rightarrow> (clearTimer h c)\<lparr>typingTtlTimer := None\<rparr>);
          c2 = (case typingTimer c1 of
                  None \<Rightarrow> c1
                | Some h \<Rightarrow> (clearTimer h c1)\<lparr>typingTimer := None\<rparr>)
      in c2\<lparr>sealed := False, started := False, active := False, runComplete := False,
            transitioning := False, dispatchIdle := True, phase := None\<rparr>)"

text \<open>
  The operations of the controller object other than \<open>resetForFollowup\<close> (the query
  \<open>isActive\<close> changes nothing by construction), and the callback of the typing interval.
\<close>

datatype typing_op =
    OpOnReplyStart
  | OpStartThinkingLoop
  | OpStartTypingLoop
  | OpStartTypingOnText "string option"
  | OpRefreshTypingTtl
  | OpMarkRunComplete
  | OpMarkDispatchIdle
  | OpTransitionToFollowup
  | OpCleanup
  | OpTypingTimerTick nat

fun typing_apply :: "typing_params \<Rightarrow> typing_op \<Rightarrow> typing_ctrl \<Rightarrow> typing_ctrl" where
  "typing_apply p OpOnReplyStart c = ensureStart p c"
| "typing_apply p OpStartThinkingLoop c = fst (startThinkingLoop p c)"
| "typing_apply p OpStartTypingLoop c = fst (startTypingLoop p c)"
| "typing_apply p (OpStartTypingOnText text) c = fst (startTypingOnText p text c)"
| "typing_apply p OpRefreshTypingTtl c = refreshTypingTtl p c"
| "typing_apply p OpMarkRunComplete c = markRunComplete p c"
| "typing_apply p OpMarkDispatchIdle c = markDispatchIdle p c"
| "typing_apply p OpTransitionToFollowup c = transitionToFollowup p c"
| "typing_apply p OpCleanup c = cleanup p c"
| "typing_apply p (OpTypingTimerTick h) c = typingTimerTick p h c"

text \<open>Whether a call of the operation is left suspended before arming the typing interval.\<close>

fun typing_suspends :: "typing_params \<Rightarrow> typing_op \<Rightarrow> typing_ctrl \<Rightarrow> bool" where
  "typing_suspends p OpStartThinkingLoop c = snd (startThinkingLoop p c)"
| "typing_suspends p OpStartTypingLoop c = snd (startTypingLoop p c)"
| "typing_suspends p (OpStartTypingOnText text) c = snd (startTypingOnText p text c)"
| "typing_suspends p _ c = False"

text \<open>
  A controller created with every callback present and the default interval and TTL,
  and the state it is in after a whole run: the thinking loop was started, then the run
  completed and the dispatcher went idle, so \<open>cleanup\<close> ran and sealed it.
\<close>

definition typing_params_example :: typing_params where
  "typing_params_example =
     \<lparr> hasOnReplyStart = True, hasOnCleanup = True, hasOnPhaseChange = True, hasLog = True,
       typingIntervalSeconds = 6, typingTtlMs = 2 * 60000, silentToken = ''NO_REPLY'',
       isSilentReplyText = (\<lambda>t tok. t = tok) \<rparr>"

definition typing_sealed_example :: typing_ctrl where
  "typing_sealed_example =
     markDispatchIdle typing_params_example
       (markRunComplete typing_params_example
          (fst (startThinkingLoop typing_params_example typing_init)))"

section \<open>Thread status managers: what the two variants share\<close>

text \<open>
  \<open>src/slack/threading-tool-context.ts\<close> holds the text variant of the thread status
  manager and \<open>src/slack/monitor/thread-status.ts\<close> the phase/counter variant. Each module
  has its own \<open>managers\<close> map, \<open>acquireThreadStatus\<close> and class \<open>ThreadStatusManager\<close>;
  the names of the text variant carry the suffix \<open>_text\<close> here, those of the phase
  variant \<open>_phase\<close>, and what is the same code in both is modelled once.

  An injected function (\<open>push\<close>, \<open>onError\<close>, \<open>shouldGrace\<close>) is known by its identity.
  JavaScript runs one callback at a time, so a call, a timer callback and the
  continuation of a settled promise are each one atomic step on the state.
\<close>

type_synonym callback_ref = nat

text \<open>
  The fields both classes have. \<open>activeHandles\<close> is a JavaScript number that the code
  clamps with \<open>Math.max(0, ...)\<close>, so it is an \<open>int\<close> and the clamp is written out.
  A timer field is \<open>True\<close> while its timer is pending and \<open>False\<close> for \<open>null\<close>.
\<close>

record manager_base =
  key :: string
  pushFn :: callback_ref
  graceMs :: int
  onError :: "callback_ref option"
  activeHandles :: int
  graceTimer :: bool
  pushing :: bool

text \<open>
  The closure returned by \<open>acquire\<close>: the manager it was made by (\<open>this\<close>), its
  \<open>released\<close> flag and the \<open>shouldGrace\<close> callback given to \<open>acquire\<close>, if any.
\<close>

record handle =
  hManager :: nat
  released :: bool
  shouldGrace :: "callback_ref option"

text \<open>
  The module state: the \<open>managers\<close> map holds references to manager objects, which
  live in \<open>heap\<close>; a manager deleted from the map is still reachable from its handles
  and from pending callbacks. \<open>pushLog\<close> records every call of an injected push
  function: the calling manager, the function and the status text. \<open>errorLog\<close> records
  the calls of \<open>onError\<close>.
\<close>

record 'm status_sys =
  managers :: "string \<rightharpoonup> nat"
  heap :: "nat \<Rightarrow> 'm"
  nextManager :: nat
  handles :: "nat \<Rightarrow> handle"
  nextHandle :: nat
  pushLog :: "(nat \<times> callback_ref \<times> string) list"
  errorLog :: "callback_ref list"

definition updManager :: "nat \<Rightarrow> ('m \<Rightarrow> 'm) \<Rightarrow> 'm status_sys \<Rightarrow> 'm status_sys" where
  "updManager m f s = s\<lparr>heap := (heap s)(m := f (heap s m))\<rparr>"

definition cancelGrace ::
  "nat \<Rightarrow> ('a manager_base_scheme) status_sys \<Rightarrow> ('a manager_base_scheme) status_sys" where
  "cancelGrace m s = updManager m (\<lambda>x. x\<lparr>graceTimer := False\<rparr>) s"

text \<open>\<open>acquire\<close> is the same method in both classes, up to the methods of the handle.\<close>

definition acquire ::
  "nat \<Rightarrow> callback_ref option \<Rightarrow> ('a manager_base_scheme) status_sys
     \<Rightarrow> nat \<times> ('a manager_base_scheme) status_sys" where
  "acquire m sg s =
     (let s1 = updManager m (\<lambda>x. x\<lparr>activeHandles := activeHandles x + 1\<rparr>) s;
          s2 = cancelGrace m s1;
          h = nextHandle s2
      in (h, s2\<lparr>handles := (handles s2)(h := \<lparr>hManager = m, released = False, shouldGrace = sg\<rparr>),
                nextHandle := Suc h\<rparr>))"

text \<open>The \<open>catch\<close> block of a push: \<open>this.onError?.(err)\<close> when the push was rejected.\<close>

definition reportError ::
  "nat \<Rightarrow> bool \<Rightarrow> ('a manager_base_scheme) status_sys \<Rightarrow> ('a manager_base_scheme) status_sys" where
  "reportError m ok s =
     (if ok then s
      else case onError (heap s m) of
             None \<Rightarrow> s
           | Some f \<Rightarrow> s\<lparr>errorLog := errorLog s @ [f]\<rparr>)"

text \<open>
  \<open>const graceResult = shouldGrace ? shouldGrace() : undefined\<close>: the callback is called
  if there is one; \<open>answers\<close> says what each callback returns when called now.
\<close>

definition graceResultOf :: "callback_ref option \<Rightarrow> (callback_ref \<Rightarrow> bool) \<Rightarrow> bool option" where
  "graceResultOf sg answers = map_option answers sg"

section \<open>Thread status manager, text variant (src/slack/threading-tool-context.ts)\<close>

text \<open>
  \<open>ticksInFlight\<close> counts the calls of \<open>pushFn\<close> made by \<open>pushTick\<close> whose promise has
  not settled yet, \<open>oncesInFlight\<close> those made by \<open>pushOnce\<close>.
\<close>

record text_manager = manager_base +
  currentText :: string
  pushTimer :: bool
  pushIntervalMs :: int
  graceText :: string
  ticksInFlight :: nat
  oncesInFlight :: nat

type_synonym text_sys = "text_manager status_sys"

text \<open>The argument of \<open>acquireThreadStatus\<close>; an optional property is an \<open>option\<close>.\<close>

record text_params =
  argKey :: string
  argPush :: callback_ref
  argPushIntervalMs :: "int option"
  argGraceMs :: "int option"
  argGraceText :: "string option"
  argShouldGrace :: "callback_ref option"
  argOnError :: "callback_ref option"

definition blank_text_manager :: text_manager where
  "blank_text_manager =
     \<lparr> key = [], pushFn = 0, graceMs = 0, onError = None, activeHandles = 0,
       graceTimer = False, pushing = False, currentText = [], pushTimer = False,
       pushIntervalMs = 0, graceText = [], ticksInFlight = 0, oncesInFlight = 0 \<rparr>"

definition text_init :: text_sys where
  "text_init = \<lparr> managers = Map.empty, heap = (\<lambda>_. blank_text_manager), nextManager = 0,
     handles = (\<lambda>_. \<lparr>hManager = 0, released = True, shouldGrace = None\<rparr>), nextHandle = 0,
     pushLog = [], errorLog = [] \<rparr>"

text \<open>The constructor, with the defaults of the destructuring in \<open>acquireThreadStatus\<close>.\<close>

definition new_text_manager :: "text_params \<Rightarrow> text_manager" where
  "new_text_manager p =
     \<lparr> key = argKey p, pushFn = argPush p,
       graceMs = (case argGraceMs p of None \<Rightarrow> 5000 | Some g \<Rightarrow> g),
       onError = argOnError p, activeHandles = 0, graceTimer = False, pushing = False,
       currentText = [], pushTimer = False,
       pushIntervalMs = (case argPushIntervalMs p of None \<Rightarrow> 100 | Some i \<Rightarrow> i),
       graceText = (case argGraceText p of None \<Rightarrow> ''is thinking...'' | Some t \<Rightarrow> t),
       ticksInFlight = 0, oncesInFlight = 0 \<rparr>"

definition acquireThreadStatus_text :: "text_params \<Rightarrow> text_sys \<Rightarrow> nat \<times> text_sys" where
  "acquireThreadStatus_text p s =
     (let (mgr, s1) =
            (case managers s (argKey p) of
               Some m \<Rightarrow> (m, s)
             | None \<Rightarrow> (nextManager s,
                 s\<lparr>heap := (heap s)(nextManager s := new_text_manager p),
                   nextManager := Suc (nextManager s),
                   managers := (managers s)(argKey p \<mapsto> nextManager s)\<rparr>))
      in acquire mgr (argShouldGrace p) s1)"

definition stopLoop :: "nat \<Rightarrow> text_sys \<Rightarrow> text_sys" where
  "stopLoop m s = updManager m (\<lambda>x. x\<lparr>pushTimer := False\<rparr>) s"

definition forceDestroy_text :: "nat \<Rightarrow> text_sys \<Rightarrow> text_sys" where
  "forceDestroy_text m s = stopLoop m (cancelGrace m s)"

definition destroy_text :: "nat \<Rightarrow> text_sys \<Rightarrow> text_sys" where
  "destroy_text m s =
     (let s1 = stopLoop m (cancelGrace m s)
      in s1\<lparr>managers := (managers s1)(key (heap s1 m) := None)\<rparr>)"

definition stopAndDestroy_text :: "nat \<Rightarrow> text_sys \<Rightarrow> text_sys" where
  "stopAndDestroy_text m s = destroy_text m (stopLoop m s)"

text \<open>
  \<open>pushTick\<close> up to its \<open>await\<close>: the guard, the flag, the call of \<open>pushFn\<close>. The rest of
  the function runs when the promise settles: \<open>tickSettled\<close>, with \<open>ok\<close> false for a
  rejection.
\<close>

definition pushTick :: "nat \<Rightarrow> text_sys \<Rightarrow> text_sys" where
  "pushTick m s =
     (if pushing (heap s m) then s
      else (updManager m (\<lambda>x. x\<lparr>pushing := True, ticksInFlight := Suc (ticksInFlight x)\<rparr>) s)
             \<lparr>pushLog := pushLog s @ [(m, pushFn (heap s m), currentText (heap s m))]\<rparr>)"

definition tickSettled :: "nat \<Rightarrow> bool \<Rightarrow> text_sys \<Rightarrow> text_sys" where
  "tickSettled m ok s =
     (if ticksInFlight (heap s m) = 0 then s
      else updManager m (\<lambda>x. x\<lparr>pushing := False\<rparr>)
             (reportError m ok
                (updManager m (\<lambda>x. x\<lparr>ticksInFlight := ticksInFlight x - 1\<rparr>) s)))"

text \<open>
  \<open>pushOnce\<close> up to its \<open>await\<close>: it calls \<open>pushFn\<close> whatever \<open>pushing\<close> is. Both of its
  call sites chain \<open>.finally(() => this.stopAndDestroy())\<close>, which is the end of
  \<open>onceSettled\<close>.
\<close>

definition pushOnce_text :: "nat \<Rightarrow> string \<Rightarrow> text_sys \<Rightarrow> text_sys" where
  "pushOnce_text m text s =
     (updManager m (\<lambda>x. x\<lparr>oncesInFlight := Suc (oncesInFlight x)\<rparr>) s)
       \<lparr>pushLog := pushLog s @ [(m, pushFn (heap s m), text)]\<rparr>"

definition onceSettled :: "nat \<Rightarrow> bool \<Rightarrow> text_sys \<Rightarrow> text_sys" where
  "onceSettled m ok s =
     (if oncesInFlight (heap s m) = 0 then s
      else stopAndDestroy_text m
             (reportError m ok
                (updManager m (\<lambda>x. x\<lparr>oncesInFlight := oncesInFlight x - 1\<rparr>) s)))"

definition startPushLoop :: "nat \<Rightarrow> text_sys \<Rightarrow> text_sys" where
  "startPushLoop m s = updManager m (\<lambda>x. x\<lparr>pushTimer := True\<rparr>) (pushTick m s)"

text \<open>The callback of the push interval; it runs only while the interval is set.\<close>

definition pushTimerTick :: "nat \<Rightarrow> text_sys \<Rightarrow> text_sys" where
  "pushTimerTick m s = (if pushTimer (heap s m) then pushTick m s else s)"

definition setStatus_text :: "nat \<Rightarrow> string \<Rightarrow> text_sys \<Rightarrow> text_sys" where
  "setStatus_text h text s =
     (if released (handles s h) then s
      else
        let m = hManager (handles s h);
            s1 = updManager m (\<lambda>x. x\<lparr>currentText := text\<rparr>) s
        in if text \<noteq> [] \<and> \<not> pushTimer (heap s1 m) then startPushLoop m s1 else s1)"

definition releaseHandle_text ::
  "nat \<Rightarrow> callback_ref option \<Rightarrow> (callback_ref \<Rightarrow> bool) \<Rightarrow> text_sys \<Rightarrow> text_sys" where
  "releaseHandle_text m sg answers s =
     (let s1 = updManager m (\<lambda>x. x\<lparr>activeHandles := max 0 (activeHandles x - 1)\<rparr>) s;
          graceResult = graceResultOf sg answers
      in if activeHandles (heap s1 m) > 0 then s1
         else if \<not> pushTimer (heap s1 m) then destroy_text m s1
         else if graceResult = Some False then
           pushOnce_text m [] (updManager m (\<lambda>x. x\<lparr>currentText := []\<rparr>) s1)
         else updManager m (\<lambda>x. x\<lparr>currentText := graceText x, graceTimer := True\<rparr>) s1)"

definition release_text :: "nat \<Rightarrow> (callback_ref \<Rightarrow> bool) \<Rightarrow> text_sys \<Rightarrow> text_sys" where
  "release_text h answers s =
     (if released (handles s h) then s
      else releaseHandle_text (hManager (handles s h)) (shouldGrace (handles s h)) answers
             (s\<lparr>handles := (handles s)(h := (handles s h)\<lparr>released := True\<rparr>)\<rparr>))"

text \<open>The callback of the grace timeout; it runs only while the timeout is pending.\<close>

definition graceTimerFired_text :: "nat \<Rightarrow> text_sys \<Rightarrow> text_sys" where
  "graceTimerFired_text m s =
     (if graceTimer (heap s m) then
        pushOnce_text m []
          (updManager m (\<lambda>x. x\<lparr>graceTimer := False, currentText := []\<rparr>) s)
      else s)"

text \<open>
  Everything that can happen to the module: a call of the exported function or of a
  method of a handle that \<open>acquire\<close> has returned, a timer callback of a manager that
  exists, the settling of a push. The test-only \<open>_resetAllManagers\<close> is left out.
\<close>

datatype text_event =
    Acquire_text text_params
  | SetStatus_text nat string
  | Release_text nat "callback_ref \<Rightarrow> bool"
  | PushTimerTick nat
  | TickSettled nat bool
  | OnceSettled nat bool
  | GraceTimerFired_text nat

fun text_step :: "text_event \<Rightarrow> text_sys \<Rightarrow> text_sys" where
  "text_step (Acquire_text p) s = snd (acquireThreadStatus_text p s)"
| "text_step (SetStatus_text h text) s = (if h < nextHandle s then setStatus_text h text s else s)"
| "text_step (Release_text h answers) s = (if h < nextHandle s then release_text h answers s else s)"
| "text_step (PushTimerTick m) s = (if m < nextManager s then pushTimerTick m s else s)"
| "text_step (TickSettled m ok) s = (if m < nextManager s then tickSettled m ok s else s)"
| "text_step (OnceSettled m ok) s = (if m < nextManager s then onceSettled m ok s else s)"
| "text_step (GraceTimerFired_text m) s = (if m < nextManager s then graceTimerFired_text m s else s)"

fun text_run :: "text_event list \<Rightarrow> text_sys \<Rightarrow> text_sys" where
  "text_run [] s = s"
| "text_run (e # es) s = text_run es (text_step e s)"

section \<open>Thread status manager, phase/counter variant (src/slack/monitor/thread-status.ts)\<close>

datatype StatusPhase = reading | thinking | reasoning

definition PHASE_LABELS :: "StatusPhase \<Rightarrow> string" where
  "PHASE_LABELS p = (case p of reading \<Rightarrow> ''reading messages...''
                             | thinking \<Rightarrow> ''thinking''
                             | reasoning \<Rightarrow> ''reasoning'')"

definition formatStatus :: "StatusPhase \<Rightarrow> nat \<Rightarrow> string" where
  "formatStatus p secs =
     (if p = reading then PHASE_LABELS reading
      else PHASE_LABELS p @ '' '' @ showNat secs @ ''s'')"

text \<open>
  \<open>pushesInFlight\<close> counts the calls of \<open>pushFn\<close> whose promise has not settled yet.
  \<open>seconds\<close> starts at 0 and is only ever incremented.
\<close>

record phase_manager = manager_base +
  phase :: "StatusPhase option"
  seconds :: nat
  counterTimer :: bool
  pushesInFlight :: nat

type_synonym phase_sys = "phase_manager status_sys"

record phase_params =
  prmKey :: string
  prmPush :: callback_ref
  prmGraceMs :: "int option"
  prmShouldGrace :: "callback_ref option"
  prmOnError :: "callback_ref option"

definition blank_phase_manager :: phase_manager where
  "blank_phase_manager =
     \<lparr> key = [], pushFn = 0, graceMs = 0, onError = None, activeHandles = 0,
       graceTimer = False, pushing = False, phase = None, seconds = 0,
       counterTimer = False, pushesInFlight = 0 \<rparr>"

definition phase_init :: phase_sys where
  "phase_init = \<lparr> managers = Map.empty, heap = (\<lambda>_. blank_phase_manager), nextManager = 0,
     handles = (\<lambda>_. \<lparr>hManager = 0, released = True, shouldGrace = None\<rparr>), nextHandle = 0,
     pushLog = [], errorLog = [] \<rparr>"

definition new_phase_manager :: "phase_params \<Rightarrow> phase_manager" where
  "new_phase_manager p =
     \<lparr> key = prmKey p, pushFn = prmPush p,
       graceMs = (case prmGraceMs p of None \<Rightarrow> 5000 | Some g \<Rightarrow> g),
       onError = prmOnError p, activeHandles = 0, graceTimer = False, pushing = False,
       phase = None, seconds = 0, counterTimer = False, pushesInFlight = 0 \<rparr>"

definition acquireThreadStatus_phase :: "phase_params \<Rightarrow> phase_sys \<Rightarrow> nat \<times> phase_sys" where
  "acquireThreadStatus_phase p s =
     (let (mgr, s1) =
            (case managers s (prmKey p) of
               Some m \<Rightarrow> (m, s)
             | None \<Rightarrow> (nextManager s,
                 s\<lparr>heap := (heap s)(nextManager s := new_phase_manager p),
                   nextManager := Suc (nextManager s),
                   managers := (managers s)(prmKey p \<mapsto> nextManager s)\<rparr>))
      in acquire mgr (prmShouldGrace p) s1)"

definition isActive_phase :: "nat \<Rightarrow> phase_sys \<Rightarrow> bool" where
  "isActive_phase m s = (activeHandles (heap s m) > 0)"

definition getFormattedStatus :: "nat \<Rightarrow> phase_sys \<Rightarrow> string option" where
  "getFormattedStatus m s =
     (case phase (heap s m) of
        None \<Rightarrow> None
      | Some p \<Rightarrow> Some (formatStatus p (seconds (heap s m))))"

text \<open>
  \<open>pushOnce\<close> up to its \<open>await\<close>; here it has the in-flight guard. The rest of the
  function runs when the promise settles: \<open>pushSettled\<close>.
\<close>

definition pushOnce_phase :: "nat \<Rightarrow> string \<Rightarrow> phase_sys \<Rightarrow> phase_sys" where
  "pushOnce_phase m text s =
     (if pushing (heap s m) then s
      else (updManager m (\<lambda>x. x\<lparr>pushing := True, pushesInFlight := Suc (pushesInFlight x)\<rparr>) s)
             \<lparr>pushLog := pushLog s @ [(m, pushFn (heap s m), text)]\<rparr>)"

definition pushSettled :: "nat \<Rightarrow> bool \<Rightarrow> phase_sys \<Rightarrow> phase_sys" where
  "pushSettled m ok s =
     (if pushesInFlight (heap s m) = 0 then s
      else updManager m (\<lambda>x. x\<lparr>pushing := False\<rparr>)
             (reportError m ok
                (updManager m (\<lambda>x. x\<lparr>pushesInFlight := pushesInFlight x - 1\<rparr>) s)))"

definition rePush :: "nat \<Rightarrow> phase_sys \<Rightarrow> phase_sys" where
  "rePush m s =
     (case getFormattedStatus m s of
        None \<Rightarrow> s
      | Some text \<Rightarrow> if text \<noteq> [] then pushOnce_phase m text s else s)"

definition stopCounter :: "nat \<Rightarrow> phase_sys \<Rightarrow> phase_sys" where
  "stopCounter m s = updManager m (\<lambda>x. x\<lparr>counterTimer := False\<rparr>) s"

definition forceDestroy_phase :: "nat \<Rightarrow> phase_sys \<Rightarrow> phase_sys" where
  "forceDestroy_phase m s = stopCounter m (cancelGrace m s)"

definition destroy_phase :: "nat \<Rightarrow> phase_sys \<Rightarrow> phase_sys" where
  "destroy_phase m s =
     (let s1 = stopCounter m (cancelGrace m s)
      in s1\<lparr>managers := (managers s1)(key (heap s1 m) := None)\<rparr>)"

definition stopAndDestroy_phase :: "nat \<Rightarrow> phase_sys \<Rightarrow> phase_sys" where
  "stopAndDestroy_phase m s = destroy_phase m (stopCounter m s)"

definition setPhase :: "nat \<Rightarrow> StatusPhase \<Rightarrow> phase_sys \<Rightarrow> phase_sys" where
  "setPhase m p s =
     (let s1 = updManager m (\<lambda>x. x\<lparr>phase := Some p, seconds := 0\<rparr>) s;
          s2 = stopCounter m s1;
          s3 = pushOnce_phase m (formatStatus p 0) s2
      in if p \<noteq> reading then updManager m (\<lambda>x. x\<lparr>counterTimer := True\<rparr>) s3 else s3)"

text \<open>
  The callback of the counter interval; it runs only while the interval is set.
  \<open>formatStatus(this.phase!, ...)\<close> with \<open>phase\<close> null would render the label
  \<open>undefined\<close>.
\<close>

definition counterTick :: "nat \<Rightarrow> phase_sys \<Rightarrow> phase_sys" where
  "counterTick m s =
     (if counterTimer (heap s m) then
        let s1 = updManager m (\<lambda>x. x\<lparr>seconds := Suc (seconds x)\<rparr>) s;
            tickText = (case phase (heap s1 m) of
                          Some p \<Rightarrow> formatStatus p (seconds (heap s1 m))
                        | None \<Rightarrow> ''undefined '' @ showNat (seconds (heap s1 m)) @ ''s'')
        in pushOnce_phase m tickText s1
      else s)"

definition setStatus_phase :: "nat \<Rightarrow> StatusPhase \<Rightarrow> phase_sys \<Rightarrow> phase_sys" where
  "setStatus_phase h p s =
     (if released (handles s h) then s else setPhase (hManager (handles s h)) p s)"

definition pause :: "nat \<Rightarrow> phase_sys \<Rightarrow> phase_sys" where
  "pause h s = (if released (handles s h) then s else stopCounter (hManager (handles s h)) s)"

definition releaseHandle_phase ::
  "nat \<Rightarrow> callback_ref option \<Rightarrow> (callback_ref \<Rightarrow> bool) \<Rightarrow> phase_sys \<Rightarrow> phase_sys" where
  "releaseHandle_phase m sg answers s =
     (let s1 = updManager m (\<lambda>x. x\<lparr>activeHandles := max 0 (activeHandles x - 1)\<rparr>) s;
          graceResult = graceResultOf sg answers
      in if activeHandles (heap s1 m) > 0 then s1
         else if phase (heap s1 m) = None then destroy_phase m s1
         else if graceResult = Some False then stopAndDestroy_phase m s1
         else updManager m (\<lambda>x. x\<lparr>graceTimer := True\<rparr>) (stopCounter m s1))"

definition release_phase :: "nat \<Rightarrow> (callback_ref \<Rightarrow> bool) \<Rightarrow> phase_sys \<Rightarrow> phase_sys" where
  "release_phase h answers s =
     (if released (handles s h) then s
      else releaseHandle_phase (hManager (handles s h)) (shouldGrace (handles s h)) answers
             (s\<lparr>handles := (handles s)(h := (handles s h)\<lparr>released := True\<rparr>)\<rparr>))"

text \<open>The callback of the grace timeout; it runs only while the timeout is pending.\<close>

definition graceTimerFired_phase :: "nat \<Rightarrow> phase_sys \<Rightarrow> phase_sys" where
  "graceTimerFired_phase m s =
     (if graceTimer (heap s m) then
        stopAndDestroy_phase m (updManager m (\<lambda>x. x\<lparr>graceTimer := False\<rparr>) s)
      else s)"

text \<open>The exported queries and \<open>pushCurrentStatus\<close>.\<close>

definition isThreadActive :: "string \<Rightarrow> phase_sys \<Rightarrow> bool" where
  "isThreadActive k s = (case managers s k of None \<Rightarrow> False | Some m \<Rightarrow> isActive_phase m s)"

definition getCurrentStatus :: "string \<Rightarrow> phase_sys \<Rightarrow> string option" where
  "getCurrentStatus k s = (case managers s k of None \<Rightarrow> None | Some m \<Rightarrow> getFormattedStatus m s)"

definition pushCurrentStatus :: "string \<Rightarrow> phase_sys \<Rightarrow> phase_sys" where
  "pushCurrentStatus k s = (case managers s k of None \<Rightarrow> s | Some m \<Rightarrow> rePush m s)"

text \<open>
  Everything that can happen to the module, as for the text variant; the test-only
  \<open>_resetAllManagers\<close> is left out.
\<close>

datatype phase_event =
    Acquire_phase phase_params
  | SetStatus_phase nat StatusPhase
  | Pause nat
  | Release_phase nat "callback_ref \<Rightarrow> bool"
  | PushCurrentStatus string
  | CounterTick nat
  | PushSettled nat bool
  | GraceTimerFired_phase nat

fun phase_step :: "phase_event \<Rightarrow> phase_sys \<Rightarrow> phase_sys" where
  "phase_step (Acquire_phase p) s = snd (acquireThreadStatus_phase p s)"
| "phase_step (SetStatus_phase h p) s = (if h < nextHandle s then setStatus_phase h p s else s)"
| "phase_step (Pause h) s = (if h < nextHandle s then pause h s else s)"
| "phase_step (Release_phase h answers) s = (if h < nextHandle s then release_phase h answers s else s)"
| "phase_step (PushCurrentStatus k) s = pushCurrentStatus k s"
| "phase_step (CounterTick m) s = (if m < nextManager s then counterTick m s else s)"
| "phase_step (PushSettled m ok) s = (if m < nextManager s then pushSettled m ok s else s)"
| "phase_step (GraceTimerFired_phase m) s = (if m < nextManager s then graceTimerFired_phase m s else s)"

fun phase_run :: "phase_event list \<Rightarrow> phase_sys \<Rightarrow> phase_sys" where
  "phase_run [] s = s"
| "phase_run (e # es) s = phase_run es (phase_step e s)"

section \<open>Predicates used to state the properties of the status managers\<close>

text \<open>
  What the in-flight guard keeps true of every manager object: the number of tick
  pushes (text variant), or of pushes (phase variant), that are in flight is 1 while
  \<open>pushing\<close> is set and 0 otherwise.
\<close>

definition text_pushes_ok :: "text_sys \<Rightarrow> bool" where
  "text_pushes_ok s \<longleftrightarrow>
     (\<forall>m. ticksInFlight (heap s m) = (if pushing (heap s m) then 1 else 0))"

definition phase_pushes_ok :: "phase_sys \<Rightarrow> bool" where
  "phase_pushes_ok s \<longleftrightarrow>
     (\<forall>m. pushesInFlight (heap s m) = (if pushing (heap s m) then 1 else 0))"

text \<open>
  References are allocated: the managers map and the handles that were returned refer
  to manager objects that exist.
\<close>

definition status_wf :: "'m status_sys \<Rightarrow> bool" where
  "status_wf s \<longleftrightarrow>
     (\<forall>k m. managers s k = Some m \<longrightarrow> m < nextManager s)
   \<and> (\<forall>h. h < nextHandle s \<longrightarrow> hManager (handles s h) < nextManager s)"

text \<open>The fields of a manager that its constructor sets from the arguments.\<close>

definition config_text ::
  "text_manager \<Rightarrow> string \<times> callback_ref \<times> int \<times> int \<times> string \<times> callback_ref option" where
  "config_text x = (key x, pushFn x, pushIntervalMs x, graceMs x, graceText x, onError x)"

definition config_phase :: "phase_manager \<Rightarrow> string \<times> callback_ref \<times> int \<times> callback_ref option" where
  "config_phase x = (key x, pushFn x, graceMs x, onError x)"

text \<open>
  The events that can lie between a release that started the grace window of manager
  \<open>m\<close> and the next \<open>setStatus\<close> of a holder: anything but \<open>setStatus\<close> or \<open>release\<close>
  through a handle of \<open>m\<close> that is not released yet, and the grace timer of \<open>m\<close>
  firing. \<open>window_run\<close> checks a whole event list, each event in the state it meets.
\<close>

fun window_event :: "nat \<Rightarrow> text_sys \<Rightarrow> text_event \<Rightarrow> bool" where
  "window_event m s (SetStatus_text h t) = (released (handles s h) \<or> hManager (handles s h) \<noteq> m)"
| "window_event m s (Release_text h answers) = (released (handles s h) \<or> hManager (handles s h) \<noteq> m)"
| "window_event m s (GraceTimerFired_text m') = (m' \<noteq> m)"
| "window_event m s (Acquire_text p) = True"
| "window_event m s (PushTimerTick m') = True"
| "window_event m s (TickSettled m' ok) = True"
| "window_event m s (OnceSettled m' ok) = True"

fun window_run :: "nat \<Rightarrow> text_event list \<Rightarrow> text_sys \<Rightarrow> bool" where
  "window_run m [] s = True"
| "window_run m (e # es) s = (window_event m s e \<and> window_run m es (text_step e s))"

text \<open>
  Example arguments: key \<open>C1:T1\<close>, push function 7, a \<open>shouldGrace\<close> callback 9 and
  the defaults for the rest. \<open>text_params_other\<close> has the same key and \<open>shouldGrace\<close>
  and differs in every other argument.
\<close>

definition text_params_example :: text_params where
  "text_params_example =
     \<lparr> argKey = ''C1:T1'', argPush = 7, argPushIntervalMs = None, argGraceMs = None,
       argGraceText = None, argShouldGrace = Some 9, argOnError = None \<rparr>"

definition text_params_other :: text_params where
  "text_params_other =
     \<lparr> argKey = ''C1:T1'', argPush = 8, argPushIntervalMs = Some 250, argGraceMs = Some 1,
       argGraceText = Some ''wait'', argShouldGrace = Some 9, argOnError = Some 5 \<rparr>"

definition phase_params_example :: phase_params where
  "phase_params_example =
     \<lparr> prmKey = ''C1:T1'', prmPush = 7, prmGraceMs = None, prmShouldGrace = Some 9,
       prmOnError = None \<rparr>"

definition phase_params_other :: phase_params where
  "phase_params_other =
     \<lparr> prmKey = ''C1:T1'', prmPush = 8, prmGraceMs = Some 1, prmShouldGrace = Some 9,
       prmOnError = Some 5 \<rparr>"

text \<open>
  A state of the phase variant in which one handle holds the manager of \<open>C1:T1\<close>, has
  set the phase \<open>thinking\<close>, and the first push has settled.
\<close>

definition phase_held_example :: phase_sys where
  "phase_held_example =
     phase_run [Acquire_phase phase_params_example, SetStatus_phase 0 thinking,
       PushSettled 0 True] phase_init"

text \<open>
  What holds of manager \<open>m\<close> all through its grace window: it exists, and its current
  text is its grace text \<open>g\<close>.
\<close>

definition window_inv :: "nat \<Rightarrow> string \<Rightarrow> text_sys \<Rightarrow> bool" where
  "window_inv m g s \<longleftrightarrow>
     m < nextManager s \<and> currentText (heap s m) = g \<and> graceText (heap s m) = g"

text \<open>
  A state of the text variant in which one handle holds the manager of \<open>C1:T1\<close>, the
  push loop runs and the first push has settled.
\<close>

definition text_held_example :: text_sys where
  "text_held_example =
     text_run [Acquire_text text_params_example, SetStatus_text 0 ''a'', TickSettled 0 True] text_init"

text \<open>
  A run of the text variant: a handle sets a status, the first push settles, the handle
  is released with \<open>shouldGrace\<close> answering false, so that the clearing push is in
  flight, and a second handle is acquired for the same key before that push settles.
\<close>

definition text_race_example :: text_sys where
  "text_race_example =
     text_run [Acquire_text text_params_example, SetStatus_text 0 ''a'', TickSettled 0 True,
       Release_text 0 (\<lambda>_. False), Acquire_text text_params_example] text_init"

text \<open>
  Two continuations of \<open>text_race_example\<close>. In both the clearing push settles, which
  unregisters manager 0 although handle 1 holds it; a third handle is acquired, for
  which manager 1 is built under the same key; that handle sets the status \<open>b\<close>, the
  push settles, and the handle is released with \<open>shouldGrace\<close> answering true, so that
  the grace timer of manager 1 is pending. In \<open>text_stale_loop_example\<close> handle 1 has
  set a status on manager 0 in between, so the push loop of manager 0 runs; in
  \<open>text_stale_idle_example\<close> it has not.
\<close>

definition text_stale_loop_example :: text_sys where
  "text_stale_loop_example =
     text_run [OnceSettled 0 True, SetStatus_text 1 ''x'', TickSettled 0 True,
       Acquire_text text_params_example, SetStatus_text 2 ''b'', TickSettled 1 True,
       Release_text 2 (\<lambda>_. True)] text_race_example"

definition text_stale_idle_example :: text_sys where
  "text_stale_idle_example =
     text_run [OnceSettled 0 True, Acquire_text text_params_example, SetStatus_text 2 ''b'',
       TickSettled 1 True, Release_text 2 (\<lambda>_. True)] text_race_example"

text \<open>
  What the arguments of a call of \<open>acquireThreadStatus\<close> say about the configuration of
  a manager: the key, the push function, \<open>pushIntervalMs\<close> (default 100), \<open>graceMs\<close>
  (default 5000), \<open>graceText\<close> (default \<open>is thinking...\<close>) and \<open>onError\<close>; the phase
  variant has no push interval and no grace text.
\<close>

definition created_config_text ::
  "text_params \<Rightarrow> string \<times> callback_ref \<times> int \<times> int \<times> string \<times> callback_ref option" where
  "created_config_text p =
     (argKey p, argPush p,
      (case argPushIntervalMs p of None \<Rightarrow> 100 | Some i \<Rightarrow> i),
      (case argGraceMs p of None \<Rightarrow> 5000 | Some g \<Rightarrow> g),
      (case argGraceText p of None \<Rightarrow> ''is thinking...'' | Some t \<Rightarrow> t),
      argOnError p)"

definition created_config_phase ::
  "phase_params \<Rightarrow> string \<times> callback_ref \<times> int \<times> callback_ref option" where
  "created_config_phase p =
     (prmKey p, prmPush p, (case prmGraceMs p of None \<Rightarrow> 5000 | Some g \<Rightarrow> g), prmOnError p)"

text \<open>
  Every call of a push function in the log was made by an existing manager, with the
  push function that manager holds.
\<close>

definition push_log_ok :: "('a manager_base_scheme) status_sys \<Rightarrow> bool" where
  "push_log_ok s \<longleftrightarrow>
     (\<forall>m f t. (m, f, t) \<in> set (pushLog s) \<longrightarrow> m < nextManager s \<and> f = pushFn (heap s m))"

text \<open>
  The handles of manager \<open>m\<close> that were returned by \<open>acquire\<close> and are not released yet.
\<close>

definition liveHandles :: "'m status_sys \<Rightarrow> nat \<Rightarrow> nat set" where
  "liveHandles s m = {h. h < nextHandle s \<and> \<not> released (handles s h) \<and> hManager (handles s h) = m}"

text \<open>
  The part of the state of the phase variant that the lifecycle of a manager depends on:
  the map, each manager's key, handle counter and grace timer, and the handles.
\<close>

definition phase_view ::
  "phase_sys \<Rightarrow> (string \<rightharpoonup> nat) \<times> (nat \<Rightarrow> string \<times> int \<times> bool) \<times> (nat \<Rightarrow> handle) \<times> nat \<times> nat" where
  "phase_view s = (managers s, (\<lambda>m. (key (heap s m), activeHandles (heap s m), graceTimer (heap s m))),
                   handles s, nextHandle s, nextManager s)"

text \<open>
  What every reachable state of the phase variant satisfies: references are allocated;
  a manager is registered under its own key; \<open>activeHandles\<close> is the number of its
  handles that are not released; a manager that is held or has its grace timer pending
  is the one registered under its key; and a pending grace timer means no holder.
\<close>

definition phase_inv :: "phase_sys \<Rightarrow> bool" where
  "phase_inv s \<longleftrightarrow>
     status_wf s
   \<and> (\<forall>k m. managers s k = Some m \<longrightarrow> key (heap s m) = k)
   \<and> (\<forall>m. activeHandles (heap s m) = int (card (liveHandles s m)))
   \<and> (\<forall>m. 0 < activeHandles (heap s m) \<or> graceTimer (heap s m) \<longrightarrow>
          managers s (key (heap s m)) = Some m)
   \<and> (\<forall>m. graceTimer (heap s m) \<longrightarrow> activeHandles (heap s m) = 0)"

text \<open>
  The grace decision of a release that brings \<open>activeHandles\<close> to 0 resolves to stop: no
  phase was ever set, or \<open>shouldGrace()\<close> returned false.
\<close>

definition stopsAtRelease :: "phase_sys \<Rightarrow> nat \<Rightarrow> (callback_ref \<Rightarrow> bool) \<Rightarrow> bool" where
  "stopsAtRelease s h answers \<longleftrightarrow>
     phase (heap s (hManager (handles s h))) = None
   \<or> graceResultOf (shouldGrace (handles s h)) answers = Some False"

section \<open>Properties of the active-run registry\<close>

subsection \<open>The notification loop and the alias map\<close>

lemma notifyWaiters_resolved:
  "resolved (notifyWaiters ws s) = resolved s @ map (\<lambda>w. (w, True)) ws"
  by (induction ws arbitrary: s) simp_all

lemma notifyWaiters_timers:
  "timers (notifyWaiters ws s) = (\<lambda>w. if w \<in> set ws then None else timers s w)"
  by (induction ws arbitrary: s) (auto simp: fun_eq_iff)

lemma notifyWaiters_frame:
  "ACTIVE_EMBEDDED_RUNS (notifyWaiters ws s) = ACTIVE_EMBEDDED_RUNS s"
  "SESSION_KEY_TO_SESSION_ID (notifyWaiters ws s) = SESSION_KEY_TO_SESSION_ID s"
  "EMBEDDED_RUN_WAITERS (notifyWaiters ws s) = EMBEDDED_RUN_WAITERS s"
  "waiterSets (notifyWaiters ws s) = waiterSets s"
  "nextSet (notifyWaiters ws s) = nextSet s"
  "nextWaiter (notifyWaiters ws s) = nextWaiter s"
  "queuedMessages (notifyWaiters ws s) = queuedMessages s"
  "abortCalls (notifyWaiters ws s) = abortCalls s"
  by (induction ws arbitrary: s) simp_all

lemma find_first_split:
  "P x \<Longrightarrow> \<forall>y\<in>set pre. \<not> P y \<Longrightarrow> find P (pre @ x # post) = Some x"
  by (induction pre) auto

lemma alist_delete_split:
  "distinct (map fst (pre @ (k, v) # post)) \<Longrightarrow> AList.delete k (pre @ (k, v) # post) = pre @ post"
proof -
  assume d: "distinct (map fst (pre @ (k, v) # post))"
  have "filter (\<lambda>(k', _). k \<noteq> k') xs = xs" if "k \<notin> fst ` set xs" for xs :: "('a \<times> 'b) list"
    using that by (induction xs) auto
  with d show ?thesis by (auto simp: AList.delete_eq)
qed

lemma deleteFirstAlias_first:
  assumes "distinct (map fst m)" "m = pre @ (k, sessionId) # post"
    "sessionId \<notin> snd ` set pre"
  shows "deleteFirstAlias sessionId m = pre @ post"
proof -
  have "find (\<lambda>(key, mapped). mapped = sessionId) m = Some (k, sessionId)"
    unfolding assms(2) using assms(3) by (intro find_first_split) force+
  then show ?thesis
    using alist_delete_split[of pre k sessionId post] assms(1,2)
    by (simp add: deleteFirstAlias_def)
qed

lemma deleteFirstAlias_none:
  "sessionId \<notin> snd ` set m \<Longrightarrow> deleteFirstAlias sessionId m = m"
proof -
  assume "sessionId \<notin> snd ` set m"
  then have "find (\<lambda>(key, mapped). mapped = sessionId) m = None"
    by (force simp: find_None_iff)
  then show ?thesis by (simp add: deleteFirstAlias_def)
qed

subsection \<open>Every reachable registry state satisfies the invariant\<close>

lemma runs_inv_init: "runs_inv runs_init"
  by (simp add: runs_inv_def runs_init_def)

lemma runs_inv_setActive: "runs_inv s \<Longrightarrow> runs_inv (setActiveEmbeddedRun sid h k s)"
  by (auto simp: runs_inv_def setActiveEmbeddedRun_def Let_def distinct_update split: option.splits)

lemma runs_inv_queue: "runs_inv s \<Longrightarrow> runs_inv (snd (queueEmbeddedPiMessage sid txt env s))"
  by (auto simp: runs_inv_def queueEmbeddedPiMessage_def split: option.splits)

lemma runs_inv_abort: "runs_inv s \<Longrightarrow> runs_inv (snd (abortEmbeddedPiRun sid s))"
  by (auto simp: runs_inv_def abortEmbeddedPiRun_def split: option.splits)

lemma runs_inv_timerD:
  "runs_inv s \<Longrightarrow> timers s w = Some t \<Longrightarrow>
     w < nextWaiter s \<and> EMBEDDED_RUN_WAITERS s (tSession t) = Some (tSet t)
     \<and> w \<in> set (waiterSets s (tSet t))"
  by (simp add: runs_inv_def)

lemma runs_inv_setD:
  "runs_inv s \<Longrightarrow> EMBEDDED_RUN_WAITERS s sid = Some a \<Longrightarrow>
     a < nextSet s \<and> waiterSets s a \<noteq> [] \<and> distinct (waiterSets s a)"
  by (simp add: runs_inv_def)

lemma runs_inv_memberD:
  "runs_inv s \<Longrightarrow> EMBEDDED_RUN_WAITERS s sid = Some a \<Longrightarrow> w \<in> set (waiterSets s a) \<Longrightarrow>
     \<exists>t. timers s w = Some t \<and> tSession t = sid \<and> tSet t = a"
  by (auto simp: runs_inv_def)

lemma runs_inv_resolvedD:
  "runs_inv s \<Longrightarrow> (w, b) \<in> set (resolved s) \<Longrightarrow> w < nextWaiter s \<and> timers s w = None"
  by (force simp: runs_inv_def)

lemma runs_inv_set_inj:
  assumes "runs_inv s" "EMBEDDED_RUN_WAITERS s sid = Some a" "EMBEDDED_RUN_WAITERS s sid' = Some a"
  shows "sid = sid'"
proof -
  from runs_inv_setD[OF assms(1,2)] obtain w where w: "w \<in> set (waiterSets s a)"
    by (cases "waiterSets s a") auto
  from runs_inv_memberD[OF assms(1,2) w] runs_inv_memberD[OF assms(1,3) w]
  show ?thesis by auto
qed

lemma waiterTimeout_fields:
  assumes "timers s w = Some t"
  shows "timers (waiterTimeout w s) = (timers s)(w := None)"
    and "waiterSets (waiterTimeout w s) = (waiterSets s)(tSet t := set_delete w (waiterSets s (tSet t)))"
    and "EMBEDDED_RUN_WAITERS (waiterTimeout w s) =
           (if set_delete w (waiterSets s (tSet t)) = []
            then (EMBEDDED_RUN_WAITERS s)(tSession t := None) else EMBEDDED_RUN_WAITERS s)"
    and "resolved (waiterTimeout w s) = resolved s @ [(w, False)]"
    and "nextWaiter (waiterTimeout w s) = nextWaiter s"
    and "nextSet (waiterTimeout w s) = nextSet s"
    and "SESSION_KEY_TO_SESSION_ID (waiterTimeout w s) = SESSION_KEY_TO_SESSION_ID s"
    and "ACTIVE_EMBEDDED_RUNS (waiterTimeout w s) = ACTIVE_EMBEDDED_RUNS s"
  using assms by (simp_all add: waiterTimeout_def Let_def)

lemma runs_inv_timeout:
  assumes inv: "runs_inv s"
  shows "runs_inv (waiterTimeout w s)"
proof (cases "timers s w")
  case None
  then show ?thesis using inv by (simp add: waiterTimeout_def)
next
  case (Some t)
  note F = waiterTimeout_fields[OF Some]
  let ?s' = "waiterTimeout w s"
  let ?a = "tSet t"
  from runs_inv_timerD[OF inv Some]
  have reg: "EMBEDDED_RUN_WAITERS s (tSession t) = Some ?a" and mem: "w \<in> set (waiterSets s ?a)"
    by auto
  have T: "w' < nextWaiter ?s' \<and> EMBEDDED_RUN_WAITERS ?s' (tSession t') = Some (tSet t')
        \<and> w' \<in> set (waiterSets ?s' (tSet t'))" if h: "timers ?s' w' = Some t'" for w' t'
  proof -
    from h have ne: "w' \<noteq> w" and old: "timers s w' = Some t'"
      by (auto simp: F split: if_splits)
    note D = runs_inv_timerD[OF inv old]
    show ?thesis
    proof (cases "tSet t' = ?a")
      case True
      with D ne have "w' \<in> set (set_delete w (waiterSets s ?a))" by (simp add: set_delete_def)
      then have "set_delete w (waiterSets s ?a) \<noteq> []" by auto
      with D ne True show ?thesis by (simp add: F set_delete_def)
    next
      case False
      with D reg have "tSession t' \<noteq> tSession t" by auto
      with D False show ?thesis by (simp add: F)
    qed
  qed
  have S: "a < nextSet ?s' \<and> waiterSets ?s' a \<noteq> [] \<and> distinct (waiterSets ?s' a)
        \<and> (\<forall>v\<in>set (waiterSets ?s' a). \<exists>t'. timers ?s' v = Some t' \<and> tSession t' = sid \<and> tSet t' = a)"
    if h: "EMBEDDED_RUN_WAITERS ?s' sid = Some a" for sid a
  proof -
    from h have old: "EMBEDDED_RUN_WAITERS s sid = Some a"
      by (auto simp: F split: if_splits)
    note D = runs_inv_setD[OF inv old]
    show ?thesis
    proof (cases "a = ?a")
      case True
      with old reg inv have "sid = tSession t" by (auto dest: runs_inv_set_inj)
      with h True have ne: "set_delete w (waiterSets s ?a) \<noteq> []"
        by (auto simp: F split: if_splits)
      have "\<exists>t'. timers ?s' v = Some t' \<and> tSession t' = sid \<and> tSet t' = a"
        if "v \<in> set (set_delete w (waiterSets s ?a))" for v
      proof -
        from that have "v \<noteq> w" "v \<in> set (waiterSets s a)" using True by (auto simp: set_delete_def)
        with runs_inv_memberD[OF inv old] show ?thesis by (simp add: F)
      qed
      with D True ne show ?thesis by (simp add: F set_delete_def)
    next
      case False
      have "\<exists>t'. timers ?s' v = Some t' \<and> tSession t' = sid \<and> tSet t' = a"
        if "v \<in> set (waiterSets s a)" for v
      proof -
        from runs_inv_memberD[OF inv old that] obtain t' where
          t': "timers s v = Some t'" "tSession t' = sid" "tSet t' = a" by auto
        with False Some have "v \<noteq> w" by auto
        with t' show ?thesis by (simp add: F)
      qed
      with D False show ?thesis by (simp add: F)
    qed
  qed
  have "w \<notin> fst ` set (resolved s)"
    using runs_inv_resolvedD[OF inv] Some by force
  then have R1: "distinct (map fst (resolved ?s'))"
    using inv by (simp add: F runs_inv_def)
  have R2: "fst p < nextWaiter ?s' \<and> timers ?s' (fst p) = None" if "p \<in> set (resolved ?s')" for p
    using that runs_inv_resolvedD[OF inv, of "fst p" "snd p"] runs_inv_timerD[OF inv Some]
    by (auto simp: F)
  have A: "distinct (map fst (SESSION_KEY_TO_SESSION_ID ?s'))"
    using inv by (simp add: F runs_inv_def)
  show ?thesis
    unfolding runs_inv_def using A T S R1 R2 by blast
qed


lemma waitFor_immediate:
  "sid = [] \<or> ACTIVE_EMBEDDED_RUNS s sid = None \<Longrightarrow>
     waitForEmbeddedPiRunEnd sid ms s = (Immediate True, s)"
  by (simp add: waitForEmbeddedPiRunEnd_def)

lemma waitFor_fields:
  assumes "sid \<noteq> []" "ACTIVE_EMBEDDED_RUNS s sid = Some h"
  shows "fst (waitForEmbeddedPiRunEnd sid ms s) = Waiting (nextWaiter s)"
    and "timers (snd (waitForEmbeddedPiRunEnd sid ms s)) = (timers s)(nextWaiter s \<mapsto>
           \<lparr>tSession = sid, tSet = waitSet sid s, tDelay = max 100 ms\<rparr>)"
    and "waiterSets (snd (waitForEmbeddedPiRunEnd sid ms s)) = (waiterSets s)(waitSet sid s :=
           set_add (nextWaiter s) (case EMBEDDED_RUN_WAITERS s sid of Some a \<Rightarrow> waiterSets s a | None \<Rightarrow> []))"
    and "EMBEDDED_RUN_WAITERS (snd (waitForEmbeddedPiRunEnd sid ms s)) = (EMBEDDED_RUN_WAITERS s)(sid \<mapsto> waitSet sid s)"
    and "nextWaiter (snd (waitForEmbeddedPiRunEnd sid ms s)) = Suc (nextWaiter s)"
    and "nextSet (snd (waitForEmbeddedPiRunEnd sid ms s)) = (case EMBEDDED_RUN_WAITERS s sid of Some a \<Rightarrow> nextSet s | None \<Rightarrow> Suc (nextSet s))"
    and "resolved (snd (waitForEmbeddedPiRunEnd sid ms s)) = resolved s"
    and "SESSION_KEY_TO_SESSION_ID (snd (waitForEmbeddedPiRunEnd sid ms s)) = SESSION_KEY_TO_SESSION_ID s"
    and "ACTIVE_EMBEDDED_RUNS (snd (waitForEmbeddedPiRunEnd sid ms s)) = ACTIVE_EMBEDDED_RUNS s"
  using assms
  by (simp_all add: waitForEmbeddedPiRunEnd_def waitSet_def Let_def split: option.splits)

lemma runs_inv_fresh_waiter:
  assumes inv: "runs_inv s"
  shows "timers s (nextWaiter s) = None"
    and "EMBEDDED_RUN_WAITERS s sid = Some a \<Longrightarrow> nextWaiter s \<notin> set (waiterSets s a)"
  using runs_inv_timerD[OF inv, of "nextWaiter s"] runs_inv_memberD[OF inv, of sid a "nextWaiter s"]
  by (cases "timers s (nextWaiter s)"; fastforce)+

lemma runs_inv_wait:
  assumes inv: "runs_inv s"
  shows "runs_inv (snd (waitForEmbeddedPiRunEnd sid ms s))"
proof (cases "sid = [] \<or> ACTIVE_EMBEDDED_RUNS s sid = None")
  case True
  then show ?thesis using inv by (simp add: waitFor_immediate)
next
  case False
  then obtain h where act: "sid \<noteq> []" "ACTIVE_EMBEDDED_RUNS s sid = Some h" by auto
  note F = waitFor_fields[OF act, of ms]
  let ?s' = "snd (waitForEmbeddedPiRunEnd sid ms s)"
  let ?w = "nextWaiter s"
  let ?a = "waitSet sid s"
  let ?old = "case EMBEDDED_RUN_WAITERS s sid of Some a \<Rightarrow> waiterSets s a | None \<Rightarrow> []"
  have fresh: "?w \<notin> set ?old"
    using runs_inv_fresh_waiter(2)[OF inv] by (auto split: option.splits)
  have new: "waiterSets ?s' ?a = ?old @ [?w]"
    using fresh by (simp add: F set_add_def)
  have dist_old: "distinct ?old"
    using runs_inv_setD[OF inv] by (auto split: option.splits)
  have other: "a \<noteq> ?a" if "EMBEDDED_RUN_WAITERS s sid' = Some a" "sid' \<noteq> sid" for sid' a
  proof (cases "EMBEDDED_RUN_WAITERS s sid")
    case None
    with runs_inv_setD[OF inv that(1)] show ?thesis by (simp add: waitSet_def)
  next
    case (Some b)
    with runs_inv_set_inj[OF inv that(1)] that(2) show ?thesis by (auto simp: waitSet_def)
  qed
  have T: "w' < nextWaiter ?s' \<and> EMBEDDED_RUN_WAITERS ?s' (tSession t') = Some (tSet t')
        \<and> w' \<in> set (waiterSets ?s' (tSet t'))" if h: "timers ?s' w' = Some t'" for w' t'
  proof (cases "w' = ?w")
    case True
    with h have "t' = \<lparr>tSession = sid, tSet = ?a, tDelay = max 100 ms\<rparr>" by (simp add: F)
    with True new show ?thesis by (simp add: F)
  next
    case False
    with h have old: "timers s w' = Some t'" by (simp add: F)
    note D = runs_inv_timerD[OF inv old]
    show ?thesis
    proof (cases "tSession t' = sid")
      case True
      with D have "tSet t' = ?a" "w' \<in> set ?old" by (auto simp: waitSet_def)
      with D True new show ?thesis by (simp add: F)
    next
      case False
      with D other have "tSet t' \<noteq> ?a" by auto
      with D False show ?thesis by (simp add: F)
    qed
  qed
  have S: "a < nextSet ?s' \<and> waiterSets ?s' a \<noteq> [] \<and> distinct (waiterSets ?s' a)
        \<and> (\<forall>v\<in>set (waiterSets ?s' a). \<exists>t'. timers ?s' v = Some t' \<and> tSession t' = sid' \<and> tSet t' = a)"
    if h: "EMBEDDED_RUN_WAITERS ?s' sid' = Some a" for sid' a
  proof (cases "sid' = sid")
    case True
    with h have a: "a = ?a" by (simp add: F)
    have lt: "?a < nextSet ?s'"
      using runs_inv_setD[OF inv] by (auto simp: F waitSet_def split: option.splits)
    have "\<exists>t'. timers ?s' v = Some t' \<and> tSession t' = sid \<and> tSet t' = ?a" if "v \<in> set (?old @ [?w])" for v
    proof (cases "v = ?w")
      case True
      then show ?thesis by (simp add: F)
    next
      case False
      with that obtain b where b: "EMBEDDED_RUN_WAITERS s sid = Some b" "v \<in> set (waiterSets s b)"
        by (cases "EMBEDDED_RUN_WAITERS s sid") auto
      with runs_inv_memberD[OF inv b] False show ?thesis by (auto simp: F waitSet_def)
    qed
    with a True lt new fresh dist_old show ?thesis by simp
  next
    case False
    with h have old: "EMBEDDED_RUN_WAITERS s sid' = Some a" by (simp add: F)
    from other[OF old False] have ne: "a \<noteq> ?a" .
    note D = runs_inv_setD[OF inv old]
    have "\<exists>t'. timers ?s' v = Some t' \<and> tSession t' = sid' \<and> tSet t' = a" if "v \<in> set (waiterSets s a)" for v
    proof -
      from runs_inv_memberD[OF inv old that] obtain t' where
        t': "timers s v = Some t'" "tSession t' = sid'" "tSet t' = a" by auto
      with runs_inv_fresh_waiter(1)[OF inv] have "v \<noteq> ?w" by auto
      with t' show ?thesis by (simp add: F)
    qed
    with D ne show ?thesis by (auto simp: F split: option.splits)
  qed
  have R1: "distinct (map fst (resolved ?s'))"
    using inv by (simp add: F runs_inv_def)
  have R2: "fst p < nextWaiter ?s' \<and> timers ?s' (fst p) = None" if "p \<in> set (resolved ?s')" for p
    using that runs_inv_resolvedD[OF inv, of "fst p" "snd p"]
    by (auto simp: F)
  have A: "distinct (map fst (SESSION_KEY_TO_SESSION_ID ?s'))"
    using inv by (simp add: F runs_inv_def)
  show ?thesis
    unfolding runs_inv_def using A T S R1 R2 by blast
qed


lemma distinct_deleteFirstAlias:
  "distinct (map fst m) \<Longrightarrow> distinct (map fst (deleteFirstAlias sid m))"
  by (auto simp: deleteFirstAlias_def distinct_delete split: option.splits)

lemma notify_fields:
  assumes "EMBEDDED_RUN_WAITERS s sid = Some a" "waiterSets s a \<noteq> []"
  shows "timers (notifyEmbeddedRunEnded sid s) = (\<lambda>w. if w \<in> set (waiterSets s a) then None else timers s w)"
    and "resolved (notifyEmbeddedRunEnded sid s) = resolved s @ map (\<lambda>w. (w, True)) (waiterSets s a)"
    and "EMBEDDED_RUN_WAITERS (notifyEmbeddedRunEnded sid s) = (EMBEDDED_RUN_WAITERS s)(sid := None)"
    and "waiterSets (notifyEmbeddedRunEnded sid s) = waiterSets s"
    and "nextWaiter (notifyEmbeddedRunEnded sid s) = nextWaiter s"
    and "nextSet (notifyEmbeddedRunEnded sid s) = nextSet s"
    and "SESSION_KEY_TO_SESSION_ID (notifyEmbeddedRunEnded sid s) = SESSION_KEY_TO_SESSION_ID s"
    and "ACTIVE_EMBEDDED_RUNS (notifyEmbeddedRunEnded sid s) = ACTIVE_EMBEDDED_RUNS s"
  using assms
  by (simp_all add: notifyEmbeddedRunEnded_def notifyWaiters_timers notifyWaiters_resolved
      notifyWaiters_frame cong: if_cong)

lemma notify_none:
  "EMBEDDED_RUN_WAITERS s sid = None \<Longrightarrow> notifyEmbeddedRunEnded sid s = s"
  by (simp add: notifyEmbeddedRunEnded_def)

lemma runs_inv_notify:
  assumes inv: "runs_inv s"
  shows "runs_inv (notifyEmbeddedRunEnded sid s)"
proof (cases "EMBEDDED_RUN_WAITERS s sid")
  case None
  then show ?thesis using inv by (simp add: notify_none)
next
  case (Some a)
  note D = runs_inv_setD[OF inv Some]
  then have ne: "waiterSets s a \<noteq> []" by simp
  note F = notify_fields[OF Some ne]
  let ?s' = "notifyEmbeddedRunEnded sid s"
  have T: "w' < nextWaiter ?s' \<and> EMBEDDED_RUN_WAITERS ?s' (tSession t') = Some (tSet t')
        \<and> w' \<in> set (waiterSets ?s' (tSet t'))" if h: "timers ?s' w' = Some t'" for w' t'
  proof -
    from h have out: "w' \<notin> set (waiterSets s a)" and old: "timers s w' = Some t'"
      by (auto simp: F split: if_splits)
    note E = runs_inv_timerD[OF inv old]
    with Some out have "tSession t' \<noteq> sid" by auto
    with E show ?thesis by (simp add: F)
  qed
  have S: "b < nextSet ?s' \<and> waiterSets ?s' b \<noteq> [] \<and> distinct (waiterSets ?s' b)
        \<and> (\<forall>v\<in>set (waiterSets ?s' b). \<exists>t'. timers ?s' v = Some t' \<and> tSession t' = sid' \<and> tSet t' = b)"
    if h: "EMBEDDED_RUN_WAITERS ?s' sid' = Some b" for sid' b
  proof -
    from h have ne': "sid' \<noteq> sid" and old: "EMBEDDED_RUN_WAITERS s sid' = Some b"
      by (auto simp: F split: if_splits)
    have "\<exists>t'. timers ?s' v = Some t' \<and> tSession t' = sid' \<and> tSet t' = b" if "v \<in> set (waiterSets s b)" for v
    proof -
      from runs_inv_memberD[OF inv old that] obtain t' where
        t': "timers s v = Some t'" "tSession t' = sid'" "tSet t' = b" by auto
      have "v \<notin> set (waiterSets s a)"
        using runs_inv_memberD[OF inv Some, of v] t' ne' by auto
      with t' show ?thesis by (simp add: F)
    qed
    with runs_inv_setD[OF inv old] show ?thesis by (simp add: F)
  qed
  have "w \<notin> fst ` set (resolved s)" if "w \<in> set (waiterSets s a)" for w
    using runs_inv_memberD[OF inv Some that] runs_inv_resolvedD[OF inv, of w] by force
  then have R1: "distinct (map fst (resolved ?s'))"
    using inv D by (auto simp: F runs_inv_def distinct_map comp_def inj_on_def)
  have R2: "fst p < nextWaiter ?s' \<and> timers ?s' (fst p) = None" if "p \<in> set (resolved ?s')" for p
    using that runs_inv_resolvedD[OF inv, of "fst p" "snd p"]
      runs_inv_memberD[OF inv Some, of "fst p"] runs_inv_timerD[OF inv, of "fst p"]
    by (auto simp: F)
  have A: "distinct (map fst (SESSION_KEY_TO_SESSION_ID ?s'))"
    using inv by (simp add: F runs_inv_def)
  show ?thesis
    unfolding runs_inv_def using A T S R1 R2 by blast
qed

lemma runs_inv_clear:
  assumes inv: "runs_inv s"
  shows "runs_inv (clearActiveEmbeddedRun sid h s)"
proof (cases "ACTIVE_EMBEDDED_RUNS s sid = Some h")
  case False
  then show ?thesis using inv by (simp add: clearActiveEmbeddedRun_def)
next
  case True
  have "runs_inv (s\<lparr>ACTIVE_EMBEDDED_RUNS := (ACTIVE_EMBEDDED_RUNS s)(sid := None),
           SESSION_KEY_TO_SESSION_ID := deleteFirstAlias sid (SESSION_KEY_TO_SESSION_ID s)\<rparr>)"
    using inv by (simp add: runs_inv_def distinct_deleteFirstAlias)
  from runs_inv_notify[OF this] True show ?thesis
    by (simp add: clearActiveEmbeddedRun_def)
qed

lemma runs_inv_step: "runs_inv s \<Longrightarrow> runs_inv (runs_step e s)"
  by (cases e) (simp_all add: runs_inv_setActive runs_inv_clear runs_inv_wait runs_inv_timeout
      runs_inv_queue runs_inv_abort)

lemma runs_inv_run: "runs_inv s \<Longrightarrow> runs_inv (runs_run es s)"
  by (induction es arbitrary: s) (simp_all add: runs_inv_step)

lemma runs_inv_reachable: "runs_inv (runs_run es runs_init)"
  by (simp add: runs_inv_run runs_inv_init)


subsection \<open>What a matching clear does to the waiters\<close>

lemma pending_waiters_of_session:
  assumes inv: "runs_inv s"
  shows "{w. \<exists>t. timers s w = Some t \<and> tSession t = sid} =
           (case EMBEDDED_RUN_WAITERS s sid of None \<Rightarrow> {} | Some a \<Rightarrow> set (waiterSets s a))"
proof (cases "EMBEDDED_RUN_WAITERS s sid")
  case None
  then show ?thesis using runs_inv_timerD[OF inv] by force
next
  case (Some a)
  then show ?thesis
    using runs_inv_timerD[OF inv] runs_inv_memberD[OF inv Some] by force
qed

lemma clear_wakes:
  assumes inv: "runs_inv s" and act: "ACTIVE_EMBEDDED_RUNS s sid = Some h"
  defines "ws \<equiv> (case EMBEDDED_RUN_WAITERS s sid of None \<Rightarrow> [] | Some a \<Rightarrow> waiterSets s a)"
  shows "distinct ws"
    and "set ws = {w. \<exists>t. timers s w = Some t \<and> tSession t = sid}"
    and "resolved (clearActiveEmbeddedRun sid h s) = resolved s @ map (\<lambda>w. (w, True)) ws"
    and "timers (clearActiveEmbeddedRun sid h s) = (\<lambda>w. if w \<in> set ws then None else timers s w)"
    and "EMBEDDED_RUN_WAITERS (clearActiveEmbeddedRun sid h s) = (EMBEDDED_RUN_WAITERS s)(sid := None)"
proof -
  let ?s1 = "s\<lparr>ACTIVE_EMBEDDED_RUNS := (ACTIVE_EMBEDDED_RUNS s)(sid := None),
           SESSION_KEY_TO_SESSION_ID := deleteFirstAlias sid (SESSION_KEY_TO_SESSION_ID s)\<rparr>"
  have c: "clearActiveEmbeddedRun sid h s = notifyEmbeddedRunEnded sid ?s1"
    using act by (simp add: clearActiveEmbeddedRun_def)
  show "distinct ws"
    using runs_inv_setD[OF inv] by (auto simp: ws_def split: option.splits)
  show "set ws = {w. \<exists>t. timers s w = Some t \<and> tSession t = sid}"
    by (simp add: pending_waiters_of_session[OF inv] ws_def split: option.splits)
  show "resolved (clearActiveEmbeddedRun sid h s) = resolved s @ map (\<lambda>w. (w, True)) ws"
    using runs_inv_setD[OF inv]
    by (cases "EMBEDDED_RUN_WAITERS s sid") (simp_all add: c ws_def notify_none notify_fields)
  show "timers (clearActiveEmbeddedRun sid h s) = (\<lambda>w. if w \<in> set ws then None else timers s w)"
    using runs_inv_setD[OF inv]
    by (cases "EMBEDDED_RUN_WAITERS s sid")
      (simp_all add: c ws_def notify_none notify_fields cong: if_cong)
  show "EMBEDDED_RUN_WAITERS (clearActiveEmbeddedRun sid h s) = (EMBEDDED_RUN_WAITERS s)(sid := None)"
    using runs_inv_setD[OF inv]
    by (cases "EMBEDDED_RUN_WAITERS s sid") (auto simp: c notify_none notify_fields fun_eq_iff)
qed

lemma clear_registry_fields:
  assumes "ACTIVE_EMBEDDED_RUNS s sid = Some h"
  shows "ACTIVE_EMBEDDED_RUNS (clearActiveEmbeddedRun sid h s) = (ACTIVE_EMBEDDED_RUNS s)(sid := None)"
    and "SESSION_KEY_TO_SESSION_ID (clearActiveEmbeddedRun sid h s) =
           deleteFirstAlias sid (SESSION_KEY_TO_SESSION_ID s)"
  using assms
  by (simp_all add: clearActiveEmbeddedRun_def notifyEmbeddedRunEnded_def notifyWaiters_frame
      Let_def split: option.splits)

text \<open>The equations that evaluate the registry on a concrete event list.\<close>

lemmas runs_eval = runs_init_def setActiveEmbeddedRun_def clearActiveEmbeddedRun_def
  waitForEmbeddedPiRunEnd_def waiterTimeout_def notifyEmbeddedRunEnded_def deleteFirstAlias_def
  queueEmbeddedPiMessage_def abortEmbeddedPiRun_def set_add_def set_delete_def Let_def

subsection \<open>Claims about the active-run registry\<close>

text \<open>
  Claim C2, as amended. In every reachable registry state \<open>s\<close>:
  \<open>waitForEmbeddedPiRunEnd\<close> returns an already-true promise and leaves the state as it
  is when \<open>sessionId\<close> is empty or has no registered run; otherwise it registers one new
  waiter (a fresh identity, never resolved before) whose timer has the delay
  \<open>max 100 timeoutMs\<close>, resolving nothing yet. \<open>clearActiveEmbeddedRun\<close> with the
  registered handle calls \<open>resolve(true)\<close> once for each waiter pending on that session,
  all in this one call, and cancels their timers. A waiter's timer firing calls
  \<open>resolve(false)\<close>, consumes the timer and removes the waiter from its set. No waiter
  is ever resolved twice, and a resolved waiter has no timer left.
\<close>

theorem waitForEmbeddedPiRunEnd_waiters:
  "let s = runs_run es runs_init in
     (sessionId = [] \<or> ACTIVE_EMBEDDED_RUNS s sessionId = None \<longrightarrow>
        waitForEmbeddedPiRunEnd sessionId timeoutMs s = (Immediate True, s))
   \<and> (sessionId \<noteq> [] \<and> ACTIVE_EMBEDDED_RUNS s sessionId \<noteq> None \<longrightarrow>
        (let r = waitForEmbeddedPiRunEnd sessionId timeoutMs s in
           fst r = Waiting (nextWaiter s)
         \<and> timers s (nextWaiter s) = None
         \<and> nextWaiter s \<notin> fst ` set (resolved s)
         \<and> (\<exists>a. timers (snd r) = (timers s)(nextWaiter s \<mapsto>
                   \<lparr>tSession = sessionId, tSet = a, tDelay = max 100 timeoutMs\<rparr>))
         \<and> resolved (snd r) = resolved s))
   \<and> (ACTIVE_EMBEDDED_RUNS s sessionId = Some handle \<longrightarrow>
        (let s' = clearActiveEmbeddedRun sessionId handle s in
           \<exists>ws. distinct ws
             \<and> set ws = {w. \<exists>t. timers s w = Some t \<and> tSession t = sessionId}
             \<and> resolved s' = resolved s @ map (\<lambda>w. (w, True)) ws
             \<and> timers s' = (\<lambda>w. if w \<in> set ws then None else timers s w)))
   \<and> (\<forall>w t. timers s w = Some t \<longrightarrow>
          resolved (waiterTimeout w s) = resolved s @ [(w, False)]
        \<and> timers (waiterTimeout w s) = (timers s)(w := None)
        \<and> w \<notin> set (waiterSets (waiterTimeout w s) (tSet t)))
   \<and> distinct (map fst (resolved s))
   \<and> (\<forall>w b. (w, b) \<in> set (resolved s) \<longrightarrow> timers s w = None)"
proof -
  define s where "s = runs_run es runs_init"
  have inv: "runs_inv s" unfolding s_def by (rule runs_inv_reachable)
  have c1: "sessionId = [] \<or> ACTIVE_EMBEDDED_RUNS s sessionId = None \<longrightarrow>
        waitForEmbeddedPiRunEnd sessionId timeoutMs s = (Immediate True, s)"
    by (simp add: waitFor_immediate)
  have fresh: "nextWaiter s \<notin> fst ` set (resolved s)"
    using runs_inv_resolvedD[OF inv] by force
  have c2: "sessionId \<noteq> [] \<and> ACTIVE_EMBEDDED_RUNS s sessionId \<noteq> None \<longrightarrow>
        (let r = waitForEmbeddedPiRunEnd sessionId timeoutMs s in
           fst r = Waiting (nextWaiter s)
         \<and> timers s (nextWaiter s) = None
         \<and> nextWaiter s \<notin> fst ` set (resolved s)
         \<and> (\<exists>a. timers (snd r) = (timers s)(nextWaiter s \<mapsto>
                   \<lparr>tSession = sessionId, tSet = a, tDelay = max 100 timeoutMs\<rparr>))
         \<and> resolved (snd r) = resolved s)"
    using waitFor_fields(1,2,7)[of sessionId s _ timeoutMs] runs_inv_fresh_waiter(1)[OF inv] fresh
    unfolding Let_def by blast
  have c3: "ACTIVE_EMBEDDED_RUNS s sessionId = Some handle \<longrightarrow>
        (let s' = clearActiveEmbeddedRun sessionId handle s in
           \<exists>ws. distinct ws
             \<and> set ws = {w. \<exists>t. timers s w = Some t \<and> tSession t = sessionId}
             \<and> resolved s' = resolved s @ map (\<lambda>w. (w, True)) ws
             \<and> timers s' = (\<lambda>w. if w \<in> set ws then None else timers s w))"
    using clear_wakes(1,2,3,4)[OF inv, of sessionId handle] unfolding Let_def by blast
  have c4: "\<forall>w t. timers s w = Some t \<longrightarrow>
          resolved (waiterTimeout w s) = resolved s @ [(w, False)]
        \<and> timers (waiterTimeout w s) = (timers s)(w := None)
        \<and> w \<notin> set (waiterSets (waiterTimeout w s) (tSet t))"
    by (simp add: waiterTimeout_fields set_delete_def)
  have c5: "distinct (map fst (resolved s))"
    using inv by (simp add: runs_inv_def)
  have c6: "\<forall>w b. (w, b) \<in> set (resolved s) \<longrightarrow> timers s w = None"
    using runs_inv_resolvedD[OF inv] by blast
  from c1 c2 c3 c4 c5 c6 show ?thesis
    unfolding s_def[symmetric] Let_def by blast
qed

theorem waitForEmbeddedPiRunEnd_waiters_witness:
  "ACTIVE_EMBEDDED_RUNS
     (runs_run [SetActive ''S1'' 1 None, WaitForEnd ''S1'' 200, WaitForEnd ''S1'' 15000] runs_init) ''S1''
     = Some 1
   \<and> resolved (clearActiveEmbeddedRun ''S1'' 1
       (runs_run [SetActive ''S1'' 1 None, WaitForEnd ''S1'' 200, WaitForEnd ''S1'' 15000] runs_init))
     = [(0, True), (1, True)]
   \<and> resolved (waiterTimeout 0
       (runs_run [SetActive ''S1'' 1 None, WaitForEnd ''S1'' 200, WaitForEnd ''S1'' 15000] runs_init))
     = [(0, False)]
   \<and> fst (waitForEmbeddedPiRunEnd ''S1'' 50
       (runs_run [SetActive ''S1'' 1 None, WaitForEnd ''S1'' 200, WaitForEnd ''S1'' 15000] runs_init))
     = Waiting 2"
  using waitForEmbeddedPiRunEnd_waiters[of
      "[SetActive ''S1'' 1 None, WaitForEnd ''S1'' 200, WaitForEnd ''S1'' 15000]" "''S1''" 50 1]
  by (simp add: runs_eval)

text \<open>
  Claim C2 as stated fails for the empty \<open>sessionId\<close>: with a run registered under
  \<open>""\<close> the call still returns the already-true promise and registers no waiter.
  And the timer of a waiter is set to at least 100 ms whatever \<open>timeoutMs\<close> is.
\<close>

theorem waitForEmbeddedPiRunEnd_claim_counterexample:
  "ACTIVE_EMBEDDED_RUNS (runs_run [SetActive [] 1 None] runs_init) [] = Some 1
   \<and> waitForEmbeddedPiRunEnd [] 15000 (runs_run [SetActive [] 1 None] runs_init)
       = (Immediate True, runs_run [SetActive [] 1 None] runs_init)
   \<and> timers (runs_run [SetActive [] 1 None] runs_init) = Map.empty
   \<and> map_option tDelay
        (timers (snd (waitForEmbeddedPiRunEnd ''S1'' 10 (runs_run [SetActive ''S1'' 1 None] runs_init))) 0)
       = Some 100"
  by (simp add: runs_eval)

text \<open>
  Claim C3. A clear whose handle is not the stored one (or for a session with no stored
  handle) returns the state unchanged: the active-run map, the alias map, the waiter
  sets, the timers and the log of resolutions. With the stored handle, in every
  reachable state, it removes the entry, removes the first alias (in insertion order)
  that maps to \<open>sessionId\<close> and only that one, resolves every waiter registered for the
  session with true, cancels their timers and drops the session's waiter set.
\<close>

theorem clearActiveEmbeddedRun_identity:
  "(ACTIVE_EMBEDDED_RUNS s0 sessionId \<noteq> Some handle \<longrightarrow>
      clearActiveEmbeddedRun sessionId handle s0 = s0)
   \<and> (let s = runs_run es runs_init; s' = clearActiveEmbeddedRun sessionId handle s in
      ACTIVE_EMBEDDED_RUNS s sessionId = Some handle \<longrightarrow>
        ACTIVE_EMBEDDED_RUNS s' = (ACTIVE_EMBEDDED_RUNS s)(sessionId := None)
      \<and> (\<forall>pre k post. SESSION_KEY_TO_SESSION_ID s = pre @ (k, sessionId) # post
             \<and> sessionId \<notin> snd ` set pre \<longrightarrow> SESSION_KEY_TO_SESSION_ID s' = pre @ post)
      \<and> (sessionId \<notin> snd ` set (SESSION_KEY_TO_SESSION_ID s) \<longrightarrow>
             SESSION_KEY_TO_SESSION_ID s' = SESSION_KEY_TO_SESSION_ID s)
      \<and> (\<exists>ws. ws = (case EMBEDDED_RUN_WAITERS s sessionId of None \<Rightarrow> [] | Some a \<Rightarrow> waiterSets s a)
             \<and> resolved s' = resolved s @ map (\<lambda>w. (w, True)) ws
             \<and> timers s' = (\<lambda>w. if w \<in> set ws then None else timers s w))
      \<and> EMBEDDED_RUN_WAITERS s' = (EMBEDDED_RUN_WAITERS s)(sessionId := None))"
proof -
  have inv: "runs_inv (runs_run es runs_init)" by (rule runs_inv_reachable)
  then have d: "distinct (map fst (SESSION_KEY_TO_SESSION_ID (runs_run es runs_init)))"
    by (simp add: runs_inv_def)
  show ?thesis
    unfolding Let_def
    using clear_wakes(3,4,5)[OF inv] clear_registry_fields[of "runs_run es runs_init" sessionId handle]
      deleteFirstAlias_first[OF d] deleteFirstAlias_none
    by (auto simp: clearActiveEmbeddedRun_def)
qed

theorem clearActiveEmbeddedRun_identity_witness:
  "ACTIVE_EMBEDDED_RUNS (runs_run [SetActive ''S1'' 1 (Some ''K1'')] runs_init) ''S1'' \<noteq> Some 2
   \<and> clearActiveEmbeddedRun ''S1'' 2 (runs_run [SetActive ''S1'' 1 (Some ''K1'')] runs_init)
       = runs_run [SetActive ''S1'' 1 (Some ''K1'')] runs_init
   \<and> ACTIVE_EMBEDDED_RUNS (runs_run [SetActive ''S1'' 1 (Some ''K1'')] runs_init) ''S1'' = Some 1
   \<and> ACTIVE_EMBEDDED_RUNS
        (clearActiveEmbeddedRun ''S1'' 1 (runs_run [SetActive ''S1'' 1 (Some ''K1'')] runs_init)) ''S1''
       = None
   \<and> SESSION_KEY_TO_SESSION_ID
        (clearActiveEmbeddedRun ''S1'' 1 (runs_run [SetActive ''S1'' 1 (Some ''K1'')] runs_init)) = []"
  using clearActiveEmbeddedRun_identity[of "runs_run [SetActive ''S1'' 1 (Some ''K1'')] runs_init"
      "''S1''" 2 "[SetActive ''S1'' 1 (Some ''K1'')]"]
    clearActiveEmbeddedRun_identity[of "runs_run [SetActive ''S1'' 1 (Some ''K1'')] runs_init"
      "''S1''" 1 "[SetActive ''S1'' 1 (Some ''K1'')]"]
  by (simp add: runs_eval)

text \<open>
  Claim C7. \<open>queueEmbeddedPiMessage\<close> returns true exactly when a handle is registered
  for \<open>sessionId\<close>, it is streaming and it is not compacting; whenever it returns false
  the whole state, the log of \<open>queueMessage\<close> calls included, is unchanged.
\<close>

theorem queueEmbeddedPiMessage_iff:
  "fst (queueEmbeddedPiMessage sessionId text env s) =
     (\<exists>handle. ACTIVE_EMBEDDED_RUNS s sessionId = Some handle
        \<and> isStreaming env handle \<and> \<not> isCompacting env handle)
   \<and> (\<not> fst (queueEmbeddedPiMessage sessionId text env s) \<longrightarrow>
        snd (queueEmbeddedPiMessage sessionId text env s) = s)"
  by (auto simp: queueEmbeddedPiMessage_def split: option.splits)

theorem queueEmbeddedPiMessage_iff_witness:
  "\<not> fst (queueEmbeddedPiMessage ''S1'' ''hi'' \<lparr>isStreaming = (\<lambda>_. True), isCompacting = (\<lambda>_. True)\<rparr>
       (runs_run [SetActive ''S1'' 7 None] runs_init))
   \<and> snd (queueEmbeddedPiMessage ''S1'' ''hi'' \<lparr>isStreaming = (\<lambda>_. True), isCompacting = (\<lambda>_. True)\<rparr>
       (runs_run [SetActive ''S1'' 7 None] runs_init)) = runs_run [SetActive ''S1'' 7 None] runs_init"
  using queueEmbeddedPiMessage_iff[of "''S1''" "''hi''"
      "\<lparr>isStreaming = (\<lambda>_. True), isCompacting = (\<lambda>_. True)\<rparr>"
      "runs_run [SetActive ''S1'' 7 None] runs_init"]
  by (simp add: runs_eval)

section \<open>Properties of the typing controller\<close>

lemma sealed_cleanup: "typing_ctrl.sealed c \<Longrightarrow> cleanup p c = c"
  by (simp add: cleanup_def)

lemma sealed_triggerTyping: "typing_ctrl.sealed c \<Longrightarrow> triggerTyping p c = c"
  by (simp add: triggerTyping_def)

lemma sealed_markRunComplete:
  "typing_ctrl.sealed c \<Longrightarrow> markRunComplete p c = c\<lparr>runComplete := True\<rparr>"
  by (simp add: markRunComplete_def maybeStopOnIdle_def sealed_cleanup)

lemma sealed_markDispatchIdle:
  "typing_ctrl.sealed c \<Longrightarrow> markDispatchIdle p c = c\<lparr>dispatchIdle := True\<rparr>"
  by (simp add: markDispatchIdle_def maybeStopOnIdle_def sealed_cleanup Let_def)

lemma sealed_apply_other:
  "typing_ctrl.sealed c \<Longrightarrow> op \<noteq> OpMarkRunComplete \<Longrightarrow> op \<noteq> OpMarkDispatchIdle \<Longrightarrow>
     typing_apply p op c = c"
  by (cases op)
    (simp_all add: ensureStart_def startThinkingLoop_def startTypingLoop_def
      startTypingOnText_def refreshTypingTtl_def transitionToFollowup_def cleanup_def
      typingTimerTick_def triggerTyping_def split: option.splits js_timer.splits)

lemma sealed_no_suspend: "typing_ctrl.sealed c \<Longrightarrow> \<not> typing_suspends p op c"
  by (cases op) (simp_all add: startThinkingLoop_def startTypingLoop_def startTypingOnText_def)

lemmas typing_eval = typing_init_def cleanup_def resetCycle_def invoke_def clearTimer_def
  refreshTypingTtl_def triggerTyping_def ensureStart_def maybeStopOnIdle_def
  startThinkingLoop_def startTypingLoop_def markRunComplete_def markDispatchIdle_def
  typingIntervalMs_def typing_params_example_def typing_sealed_example_def Let_def

text \<open>
  Claim C9, as amended. On a sealed controller every operation other than
  \<open>resetForFollowup\<close> invokes no injected callback, leaves the controller sealed and is
  not left suspended; \<open>markRunComplete\<close> and \<open>markDispatchIdle\<close> still set their flag
  (\<open>runComplete\<close>, \<open>dispatchIdle\<close>) and change nothing else, and every other operation,
  the tick of the typing interval included, leaves the whole state unchanged.
  \<open>isActive\<close> is false, and \<open>resetForFollowup\<close> un-seals.
\<close>

theorem sealed_controller_operations:
  assumes "typing_ctrl.sealed c"
  shows "(op \<noteq> OpMarkRunComplete \<and> op \<noteq> OpMarkDispatchIdle \<longrightarrow> typing_apply p op c = c)
       \<and> typing_apply p OpMarkRunComplete c = c\<lparr>runComplete := True\<rparr>
       \<and> typing_apply p OpMarkDispatchIdle c = c\<lparr>dispatchIdle := True\<rparr>
       \<and> callbackLog (typing_apply p op c) = callbackLog c
       \<and> typing_ctrl.sealed (typing_apply p op c)
       \<and> \<not> typing_suspends p op c
       \<and> \<not> isActive c
       \<and> \<not> typing_ctrl.sealed (resetForFollowup c)"
proof -
  have unchanged_or_flag:
    "typing_apply p op c = c \<or> typing_apply p op c = c\<lparr>runComplete := True\<rparr>
       \<or> typing_apply p op c = c\<lparr>dispatchIdle := True\<rparr>"
    using assms sealed_apply_other[of c op p] sealed_markRunComplete[of c p]
      sealed_markDispatchIdle[of c p]
    by (cases "op = OpMarkRunComplete"; cases "op = OpMarkDispatchIdle") auto
  then have log: "callbackLog (typing_apply p op c) = callbackLog c"
    and still: "typing_ctrl.sealed (typing_apply p op c)"
    using assms by auto
  have reset: "\<not> typing_ctrl.sealed (resetForFollowup c)"
    by (simp add: resetForFollowup_def Let_def split: option.splits)
  show ?thesis
    using assms log still reset sealed_apply_other[of c op p] sealed_markRunComplete[of c p]
      sealed_markDispatchIdle[of c p] sealed_no_suspend[of c p op]
    by (simp add: isActive_def)
qed

theorem sealed_controller_operations_witness:
  "typing_ctrl.sealed typing_sealed_example
   \<and> typing_apply typing_params_example OpStartTypingLoop typing_sealed_example
       = typing_sealed_example
   \<and> callbackLog (typing_apply typing_params_example OpMarkDispatchIdle typing_sealed_example)
       = [OnPhaseChange Thinking, OnReplyStart, OnCleanup]"
  using sealed_controller_operations[of typing_sealed_example OpStartTypingLoop typing_params_example]
    sealed_controller_operations[of typing_sealed_example OpMarkDispatchIdle typing_params_example]
  by (simp add: typing_eval)

text \<open>
  Claim C9 as stated fails: on the sealed controller left by a completed run, a late
  \<open>markRunComplete\<close> sets \<open>runComplete\<close> again, and a late \<open>markDispatchIdle\<close> sets
  \<open>dispatchIdle\<close>; neither function looks at \<open>sealed\<close> before its assignment.
\<close>

theorem sealed_controller_counterexample:
  "typing_ctrl.sealed typing_sealed_example
   \<and> \<not> runComplete typing_sealed_example
   \<and> markRunComplete typing_params_example typing_sealed_example \<noteq> typing_sealed_example
   \<and> runComplete (markRunComplete typing_params_example typing_sealed_example)
   \<and> \<not> dispatchIdle typing_sealed_example
   \<and> dispatchIdle (markDispatchIdle typing_params_example typing_sealed_example)"
  by (simp add: typing_eval)

section \<open>Properties of the thread status managers\<close>

text \<open>The equations that unfold the operations, and those that evaluate a concrete run.\<close>

lemmas status_defs = updManager_def cancelGrace_def acquire_def reportError_def graceResultOf_def

lemmas text_defs = acquireThreadStatus_text_def stopLoop_def forceDestroy_text_def destroy_text_def
  stopAndDestroy_text_def pushTick_def tickSettled_def pushOnce_text_def onceSettled_def
  startPushLoop_def pushTimerTick_def setStatus_text_def releaseHandle_text_def release_text_def
  graceTimerFired_text_def

lemmas phase_defs = acquireThreadStatus_phase_def pushOnce_phase_def pushSettled_def rePush_def
  getFormattedStatus_def stopCounter_def forceDestroy_phase_def destroy_phase_def
  stopAndDestroy_phase_def setPhase_def counterTick_def setStatus_phase_def pause_def
  releaseHandle_phase_def release_phase_def graceTimerFired_phase_def pushCurrentStatus_def

lemmas text_eval = text_defs status_defs text_init_def new_text_manager_def
  text_params_example_def text_params_other_def Let_def

lemmas phase_eval = phase_defs status_defs phase_init_def new_phase_manager_def
  phase_params_example_def phase_params_other_def formatStatus_def PHASE_LABELS_def
  digitChar_def Let_def

subsection \<open>The in-flight guard\<close>

lemma text_pushes_ok_step: "text_pushes_ok s \<Longrightarrow> text_pushes_ok (text_step e s)"
  unfolding text_pushes_ok_def
  by (cases e) (auto simp: text_defs status_defs new_text_manager_def Let_def split: option.splits)

lemma text_pushes_ok_run: "text_pushes_ok s \<Longrightarrow> text_pushes_ok (text_run es s)"
  by (induction es arbitrary: s) (simp_all add: text_pushes_ok_step)

lemma text_pushes_ok_init: "text_pushes_ok text_init"
  by (simp add: text_pushes_ok_def text_init_def blank_text_manager_def)

lemma phase_pushes_ok_step: "phase_pushes_ok s \<Longrightarrow> phase_pushes_ok (phase_step e s)"
  unfolding phase_pushes_ok_def
  by (cases e) (auto simp: phase_defs status_defs new_phase_manager_def Let_def split: option.splits)

lemma phase_pushes_ok_run: "phase_pushes_ok s \<Longrightarrow> phase_pushes_ok (phase_run es s)"
  by (induction es arbitrary: s) (simp_all add: phase_pushes_ok_step)

lemma phase_pushes_ok_init: "phase_pushes_ok phase_init"
  by (simp add: phase_pushes_ok_def phase_init_def blank_phase_manager_def)

lemma counterTick_skipped:
  "pushing (heap z m) \<Longrightarrow> pushLog (counterTick m z) = pushLog z
     \<and> pushesInFlight (heap (counterTick m z) m) = pushesInFlight (heap z m)"
  by (simp add: counterTick_def pushOnce_phase_def updManager_def Let_def)

text \<open>
  Claim C1, as amended. In the phase/counter variant at most one call of the push
  function is in flight for a manager at any time, in every reachable state: while one
  is, \<open>pushOnce\<close> and \<open>rePush\<close> do nothing at all and a counter tick makes no call
  (nothing is queued). In the text variant the same holds for the pushes of the push
  loop: at most one \<open>pushTick\<close> call is in flight, and a tick that finds one in flight
  is skipped entirely. The text variant's \<open>pushOnce\<close>, which sends the clearing empty
  string, has no guard and is not covered.
\<close>

theorem single_push_in_flight:
  "(let z = phase_run zs phase_init in
      pushesInFlight (heap z m) \<le> 1
    \<and> (pushing (heap z m) \<longleftrightarrow> pushesInFlight (heap z m) = 1)
    \<and> (pushing (heap z m) \<longrightarrow>
          pushOnce_phase m text z = z \<and> rePush m z = z
        \<and> pushLog (counterTick m z) = pushLog z
        \<and> pushesInFlight (heap (counterTick m z) m) = 1))
   \<and> (let s = text_run es text_init in
      ticksInFlight (heap s m') \<le> 1
    \<and> (pushing (heap s m') \<longleftrightarrow> ticksInFlight (heap s m') = 1)
    \<and> (pushing (heap s m') \<longrightarrow> pushTick m' s = s \<and> pushTimerTick m' s = s))"
proof -
  have p: "phase_pushes_ok (phase_run zs phase_init)"
    by (simp add: phase_pushes_ok_run phase_pushes_ok_init)
  have t: "text_pushes_ok (text_run es text_init)"
    by (simp add: text_pushes_ok_run text_pushes_ok_init)
  have skip_p: "pushOnce_phase m text z = z \<and> rePush m z = z" if "pushing (heap z m)" for z
    using that by (simp add: pushOnce_phase_def rePush_def split: option.splits)
  have skip_t: "pushTick m' s = s \<and> pushTimerTick m' s = s" if "pushing (heap s m')" for s
    using that by (simp add: pushTick_def pushTimerTick_def)
  show ?thesis
    unfolding Let_def
    using p[unfolded phase_pushes_ok_def, rule_format, of m]
      t[unfolded text_pushes_ok_def, rule_format, of m'] skip_p skip_t
      counterTick_skipped[of "phase_run zs phase_init" m]
    by (auto split: if_splits)
qed

theorem single_push_in_flight_witness:
  "pushing (heap (phase_run [Acquire_phase phase_params_example, SetStatus_phase 0 thinking] phase_init) 0)
   \<and> pushLog (phase_run [Acquire_phase phase_params_example, SetStatus_phase 0 thinking,
                CounterTick 0, PushCurrentStatus ''C1:T1''] phase_init)
       = [(0, 7, ''thinking 0s'')]
   \<and> pushing (heap (text_run [Acquire_text text_params_example, SetStatus_text 0 ''a''] text_init) 0)
   \<and> pushLog (text_run [Acquire_text text_params_example, SetStatus_text 0 ''a'', PushTimerTick 0]
                text_init)
       = [(0, 7, ''a'')]"
  using single_push_in_flight[of "[Acquire_phase phase_params_example, SetStatus_phase 0 thinking]" 0
      "''x''" "[Acquire_text text_params_example, SetStatus_text 0 ''a'']" 0]
  by (simp add: text_eval phase_eval)

text \<open>
  Claim C1 as stated fails in the text variant: a release whose \<open>shouldGrace\<close> answers
  false while the first tick push is still in flight calls the push function again, so
  two calls are in flight at once.
\<close>

theorem single_push_in_flight_counterexample:
  "ticksInFlight (heap (text_run [Acquire_text text_params_example, SetStatus_text 0 ''a'',
       Release_text 0 (\<lambda>_. False)] text_init) 0) = 1
   \<and> oncesInFlight (heap (text_run [Acquire_text text_params_example, SetStatus_text 0 ''a'',
       Release_text 0 (\<lambda>_. False)] text_init) 0) = 1
   \<and> pushLog (text_run [Acquire_text text_params_example, SetStatus_text 0 ''a'',
       Release_text 0 (\<lambda>_. False)] text_init) = [(0, 7, ''a''), (0, 7, [])]"
  by (simp add: text_eval)


subsection \<open>Released handles\<close>

lemma released_after_release_text: "released (handles (release_text h a s) h)"
  by (simp add: text_defs status_defs Let_def)

lemma released_after_release_phase: "released (handles (release_phase h a s) h)"
  by (simp add: phase_defs status_defs Let_def)

lemma released_noop_text:
  "released (handles s h) \<Longrightarrow> release_text h a s = s"
  "released (handles s h) \<Longrightarrow> setStatus_text h t s = s"
  by (simp_all add: release_text_def setStatus_text_def)

lemma released_noop_phase:
  "released (handles s h) \<Longrightarrow> release_phase h a s = s"
  "released (handles s h) \<Longrightarrow> setStatus_phase h q s = s"
  "released (handles s h) \<Longrightarrow> pause h s = s"
  by (simp_all add: release_phase_def setStatus_phase_def pause_def)

text \<open>
  Claim C8. For a handle of either variant, in any state, a second \<open>release\<close> leaves
  the state that the first one produced, whatever \<open>shouldGrace\<close> would answer, and so
  do \<open>setStatus\<close> and \<open>pause\<close> on the released handle.
\<close>

theorem release_idempotent:
  "release_text h a2 (release_text h a1 s) = release_text h a1 s
   \<and> setStatus_text h t (release_text h a1 s) = release_text h a1 s
   \<and> release_phase h b2 (release_phase h b1 z) = release_phase h b1 z
   \<and> setStatus_phase h q (release_phase h b1 z) = release_phase h b1 z
   \<and> pause h (release_phase h b1 z) = release_phase h b1 z"
  by (simp add: released_noop_text released_noop_phase released_after_release_text
      released_after_release_phase)


subsection \<open>Allocation and the configuration of a manager\<close>

lemma text_wf_step: "status_wf s \<Longrightarrow> status_wf (text_step e s)"
  unfolding status_wf_def
  by (cases e)
    (auto simp: text_defs status_defs Let_def less_Suc_eq split: option.splits if_splits)

lemma text_wf_run: "status_wf s \<Longrightarrow> status_wf (text_run es s)"
  by (induction es arbitrary: s) (simp_all add: text_wf_step)

lemma text_wf_init: "status_wf text_init"
  by (simp add: status_wf_def text_init_def)

lemma phase_wf_step: "status_wf s \<Longrightarrow> status_wf (phase_step e s)"
  unfolding status_wf_def
  by (cases e)
    (auto simp: phase_defs status_defs Let_def less_Suc_eq split: option.splits if_splits)

lemma phase_wf_run: "status_wf s \<Longrightarrow> status_wf (phase_run es s)"
  by (induction es arbitrary: s) (simp_all add: phase_wf_step)

lemma phase_wf_init: "status_wf phase_init"
  by (simp add: status_wf_def phase_init_def)

lemma text_config_step:
  "m < nextManager s \<Longrightarrow>
     config_text (heap (text_step e s) m) = config_text (heap s m)
     \<and> m < nextManager (text_step e s)"
  by (cases e)
    (auto simp: config_text_def text_defs status_defs Let_def split: option.splits if_splits)

lemma text_config_run:
  "m < nextManager s \<Longrightarrow> config_text (heap (text_run es s) m) = config_text (heap s m)"
  by (induction es arbitrary: s) (simp_all add: text_config_step)

lemma phase_config_step:
  "m < nextManager s \<Longrightarrow>
     config_phase (heap (phase_step e s) m) = config_phase (heap s m)
     \<and> m < nextManager (phase_step e s)"
  by (cases e)
    (auto simp: config_phase_def phase_defs status_defs Let_def split: option.splits if_splits)

lemma phase_config_run:
  "m < nextManager s \<Longrightarrow> config_phase (heap (phase_run es s) m) = config_phase (heap s m)"
  by (induction es arbitrary: s) (simp_all add: phase_config_step)

lemma acquire_existing_text:
  assumes "managers s (argKey p) = Some m"
  shows "fst (acquireThreadStatus_text p s) = nextHandle s"
    and "handles (snd (acquireThreadStatus_text p s)) (nextHandle s)
           = \<lparr>hManager = m, released = False, shouldGrace = argShouldGrace p\<rparr>"
    and "managers (snd (acquireThreadStatus_text p s)) = managers s"
    and "nextManager (snd (acquireThreadStatus_text p s)) = nextManager s"
    and "config_text (heap (snd (acquireThreadStatus_text p s)) m') = config_text (heap s m')"
    and "pushLog (snd (acquireThreadStatus_text p s)) = pushLog s"
    and "\<not> graceTimer (heap (snd (acquireThreadStatus_text p s)) m)"
    and "currentText (heap (snd (acquireThreadStatus_text p s)) m') = currentText (heap s m')"
  using assms
  by (simp_all add: acquireThreadStatus_text_def status_defs config_text_def Let_def)

lemma acquire_existing_phase:
  assumes "managers s (prmKey p) = Some m"
  shows "fst (acquireThreadStatus_phase p s) = nextHandle s"
    and "handles (snd (acquireThreadStatus_phase p s)) (nextHandle s)
           = \<lparr>hManager = m, released = False, shouldGrace = prmShouldGrace p\<rparr>"
    and "managers (snd (acquireThreadStatus_phase p s)) = managers s"
    and "nextManager (snd (acquireThreadStatus_phase p s)) = nextManager s"
    and "config_phase (heap (snd (acquireThreadStatus_phase p s)) m') = config_phase (heap s m')"
  using assms
  by (simp_all add: acquireThreadStatus_phase_def status_defs config_phase_def Let_def)

lemma acquire_existing_same_text:
  "managers s (argKey p) = Some m \<Longrightarrow> argKey p' = argKey p \<Longrightarrow>
     argShouldGrace p' = argShouldGrace p \<Longrightarrow>
     acquireThreadStatus_text p' s = acquireThreadStatus_text p s"
  by (simp add: acquireThreadStatus_text_def)

lemma acquire_existing_same_phase:
  "managers s (prmKey p) = Some m \<Longrightarrow> prmKey p' = prmKey p \<Longrightarrow>
     prmShouldGrace p' = prmShouldGrace p \<Longrightarrow>
     acquireThreadStatus_phase p' s = acquireThreadStatus_phase p s"
  by (simp add: acquireThreadStatus_phase_def)


subsection \<open>What the phase variant pushes\<close>

lemma formatStatus_nonempty: "formatStatus p n \<noteq> []"
  by (cases p) (simp_all add: formatStatus_def PHASE_LABELS_def)

lemma phase_no_empty_push_step:
  "[] \<notin> (\<lambda>e. snd (snd e)) ` set (pushLog s) \<Longrightarrow>
   [] \<notin> (\<lambda>e. snd (snd e)) ` set (pushLog (phase_step e s))"
  by (cases e)
    (auto simp: phase_defs status_defs Let_def formatStatus_nonempty
      formatStatus_nonempty[symmetric] image_iff split: option.splits if_splits)

lemma phase_no_empty_push_run:
  "[] \<notin> (\<lambda>e. snd (snd e)) ` set (pushLog s) \<Longrightarrow>
   [] \<notin> (\<lambda>e. snd (snd e)) ` set (pushLog (phase_run es s))"
  by (induction es arbitrary: s) (simp_all add: phase_no_empty_push_step del: phase_step.simps)

lemma phase_release_last:
  fixes z :: phase_sys and h :: nat and answers :: "callback_ref \<Rightarrow> bool"
  assumes "\<not> released (handles z h)" "phase (heap z (hManager (handles z h))) \<noteq> None"
    "activeHandles (heap z (hManager (handles z h))) \<le> 1"
  defines "m \<equiv> hManager (handles z h)"
  defines "z' \<equiv> release_phase h answers z"
  shows "pushLog z' = pushLog z"
    and "pushesInFlight (heap z' m) = pushesInFlight (heap z m)"
    and "activeHandles (heap z' m) = 0"
    and "\<not> counterTimer (heap z' m)"
    and "graceResultOf (shouldGrace (handles z h)) answers = Some False \<Longrightarrow>
           managers z' = (managers z)(key (heap z m) := None) \<and> \<not> graceTimer (heap z' m)"
    and "graceResultOf (shouldGrace (handles z h)) answers \<noteq> Some False \<Longrightarrow>
           graceTimer (heap z' m) \<and> managers z' = managers z
         \<and> pushLog (graceTimerFired_phase m z') = pushLog z
         \<and> managers (graceTimerFired_phase m z') = (managers z)(key (heap z m) := None)"
  using assms(1,2,3) unfolding m_def z'_def
  by (auto simp: phase_defs status_defs Let_def)

lemma ex_phase_held:
  "\<not> released (handles phase_held_example 0)"
  "hManager (handles phase_held_example 0) = 0"
  "phase (heap phase_held_example 0) = Some thinking"
  "activeHandles (heap phase_held_example 0) = 1"
  "shouldGrace (handles phase_held_example 0) = Some 9"
  "pushLog phase_held_example = [(0, 7, ''thinking 0s'')]"
  "managers phase_held_example ''C1:T1'' = Some 0"
  "key (heap phase_held_example 0) = ''C1:T1''"
  by (simp_all add: phase_held_example_def phase_eval)

text \<open>
  Claim C5, as amended. In the phase/counter variant, when \<open>release\<close> brings
  \<open>activeHandles\<close> to 0 after a phase has been set, nothing is pushed: the release calls
  the push function not at all, stops the counter, and either destroys the manager at
  once (\<open>shouldGrace\<close> answered false) or starts the grace timer, whose firing destroys
  the manager, again without a push. The empty string is never pushed by this variant
  in any run.
\<close>

theorem phase_release_clears_without_push:
  "(let m = hManager (handles z h); z' = release_phase h answers z in
      \<not> released (handles z h) \<and> phase (heap z m) \<noteq> None \<and> activeHandles (heap z m) \<le> 1 \<longrightarrow>
        pushLog z' = pushLog z
      \<and> pushesInFlight (heap z' m) = pushesInFlight (heap z m)
      \<and> activeHandles (heap z' m) = 0
      \<and> \<not> counterTimer (heap z' m)
      \<and> (graceResultOf (shouldGrace (handles z h)) answers = Some False \<longrightarrow>
            managers z' = (managers z)(key (heap z m) := None) \<and> \<not> graceTimer (heap z' m))
      \<and> (graceResultOf (shouldGrace (handles z h)) answers \<noteq> Some False \<longrightarrow>
            graceTimer (heap z' m) \<and> managers z' = managers z
          \<and> pushLog (graceTimerFired_phase m z') = pushLog z
          \<and> managers (graceTimerFired_phase m z') = (managers z)(key (heap z m) := None)))
   \<and> (m0, f0, []) \<notin> set (pushLog (phase_run zs phase_init))"
proof -
  have "[] \<notin> (\<lambda>e. snd (snd e)) ` set (pushLog (phase_run zs phase_init))"
    by (rule phase_no_empty_push_run) (simp add: phase_init_def)
  then have g: "(m0, f0, []) \<notin> set (pushLog (phase_run zs phase_init))"
    by force
  show ?thesis
    unfolding Let_def using g phase_release_last[of z h answers] by blast
qed

theorem phase_release_clears_without_push_witness:
  "\<not> released (handles phase_held_example 0)
   \<and> phase (heap phase_held_example 0) = Some thinking
   \<and> activeHandles (heap phase_held_example 0) = 1
   \<and> managers phase_held_example ''C1:T1'' = Some 0
   \<and> pushLog (release_phase 0 (\<lambda>_. False) phase_held_example) = [(0, 7, ''thinking 0s'')]
   \<and> managers (release_phase 0 (\<lambda>_. False) phase_held_example) ''C1:T1'' = None
   \<and> graceTimer (heap (release_phase 0 (\<lambda>_. True) phase_held_example) 0)
   \<and> managers (release_phase 0 (\<lambda>_. True) phase_held_example) ''C1:T1'' = Some 0
   \<and> pushLog (graceTimerFired_phase 0 (release_phase 0 (\<lambda>_. True) phase_held_example))
       = [(0, 7, ''thinking 0s'')]
   \<and> managers (graceTimerFired_phase 0 (release_phase 0 (\<lambda>_. True) phase_held_example))
        ''C1:T1'' = None"
  using phase_release_clears_without_push[of phase_held_example 0 "\<lambda>_. False"]
    phase_release_clears_without_push[of phase_held_example 0 "\<lambda>_. True"] ex_phase_held
  by (simp add: graceResultOf_def Let_def)

text \<open>
  Claim C5 as stated fails: after \<open>acquire\<close>, \<open>setStatus("thinking")\<close> and a release
  with \<open>shouldGrace\<close> false the manager is gone and the only push ever made is
  \<open>thinking 0s\<close>; the same holds when the grace timer ends the manager.
\<close>

theorem phase_release_empty_push_counterexample:
  "pushLog (phase_run [Acquire_phase phase_params_example, SetStatus_phase 0 thinking,
       PushSettled 0 True, Release_phase 0 (\<lambda>_. False)] phase_init) = [(0, 7, ''thinking 0s'')]
   \<and> managers (phase_run [Acquire_phase phase_params_example, SetStatus_phase 0 thinking,
       PushSettled 0 True, Release_phase 0 (\<lambda>_. False)] phase_init) ''C1:T1'' = None
   \<and> pushLog (phase_run [Acquire_phase phase_params_example, SetStatus_phase 0 thinking,
       PushSettled 0 True, Release_phase 0 (\<lambda>_. True), GraceTimerFired_phase 0] phase_init)
       = [(0, 7, ''thinking 0s'')]
   \<and> managers (phase_run [Acquire_phase phase_params_example, SetStatus_phase 0 thinking,
       PushSettled 0 True, Release_phase 0 (\<lambda>_. True), GraceTimerFired_phase 0] phase_init)
        ''C1:T1'' = None"
  by (simp add: phase_eval)


subsection \<open>The grace window of the text variant\<close>

lemma window_step:
  assumes "window_inv m g s" "window_event m s e"
  shows "window_inv m g (text_step e s)
       \<and> (\<exists>new. pushLog (text_step e s) = pushLog s @ new
             \<and> (\<forall>f t. (m, f, t) \<in> set new \<longrightarrow> t = g))"
  using assms unfolding window_inv_def
  by (cases e)
    (auto simp: text_defs status_defs Let_def split: option.splits if_splits)

lemma window_run_pushes:
  assumes "window_inv m g s" "window_run m es s"
  shows "\<exists>new. pushLog (text_run es s) = pushLog s @ new
             \<and> (\<forall>f t. (m, f, t) \<in> set new \<longrightarrow> t = g)"
  using assms
proof (induction es arbitrary: s)
  case Nil
  then show ?case by simp
next
  case (Cons e es)
  from Cons.prems have ev: "window_event m s e" and rest: "window_run m es (text_step e s)"
    by simp_all
  from window_step[OF Cons.prems(1) ev] obtain new1 where
    inv': "window_inv m g (text_step e s)" and
    l1: "pushLog (text_step e s) = pushLog s @ new1" and
    p1: "\<forall>f t. (m, f, t) \<in> set new1 \<longrightarrow> t = g" by blast
  from Cons.IH[OF inv' rest] obtain new2 where
    l2: "pushLog (text_run es (text_step e s)) = pushLog (text_step e s) @ new2" and
    p2: "\<forall>f t. (m, f, t) \<in> set new2 \<longrightarrow> t = g" by blast
  have "pushLog (text_run (e # es) s) = pushLog s @ (new1 @ new2)"
    using l1 l2 by simp
  moreover have "\<forall>f t. (m, f, t) \<in> set (new1 @ new2) \<longrightarrow> t = g"
    using p1 p2 by auto
  ultimately show ?case by blast
qed

lemma release_starts_grace:
  fixes s0 :: text_sys
  assumes "\<not> released (handles s0 h)" "\<not> graceTimer (heap s0 (hManager (handles s0 h)))"
    "graceTimer (heap (release_text h answers s0) (hManager (handles s0 h)))"
  shows "pushLog (release_text h answers s0) = pushLog s0"
    and "currentText (heap (release_text h answers s0) (hManager (handles s0 h)))
           = graceText (heap s0 (hManager (handles s0 h)))"
    and "graceText (heap (release_text h answers s0) (hManager (handles s0 h)))
           = graceText (heap s0 (hManager (handles s0 h)))"
    and "nextManager (release_text h answers s0) = nextManager s0"
  using assms
  by (auto simp: text_defs status_defs Let_def split: if_splits)


lemma ex_text_held:
  "0 < nextHandle text_held_example"
  "\<not> released (handles text_held_example 0)"
  "hManager (handles text_held_example 0) = 0"
  "\<not> graceTimer (heap text_held_example 0)"
  "graceTimer (heap (release_text 0 (\<lambda>_. True) text_held_example) 0)"
  "graceText (heap text_held_example 0) = ''is thinking...''"
  "pushLog text_held_example = [(0, 7, ''a'')]"
  "managers (release_text 0 (\<lambda>_. True) text_held_example) ''C1:T1'' = Some 0"
  by (simp_all add: text_held_example_def text_eval)

lemma ex_text_window:
  "window_run 0 [PushTimerTick 0, Acquire_text text_params_other, TickSettled 0 True,
      PushTimerTick 0] (release_text 0 (\<lambda>_. True) text_held_example)"
  "pushLog (text_run [PushTimerTick 0, Acquire_text text_params_other, TickSettled 0 True,
      PushTimerTick 0] (release_text 0 (\<lambda>_. True) text_held_example))
     = [(0, 7, ''a''), (0, 7, ''is thinking...''), (0, 7, ''is thinking...'')]"
  by (simp_all add: text_held_example_def text_eval)

text \<open>
  The pushes of the manager whose grace window is open. In the text variant, from a
  release that starts the grace window of a manager, through any events other than the
  grace timer firing and \<open>setStatus\<close> or \<open>release\<close> through a live handle of that
  manager, every push that this manager makes carries its grace text, and the release
  itself pushes nothing. And an \<open>acquireThreadStatus\<close> for a key under which a manager
  with a pending grace timer is registered returns a handle of that same manager,
  cancels the timer (its callback can no longer run), pushes nothing and leaves the
  text and the map as they are.
\<close>

lemma grace_window_own_pushes:
  "(let s0 = text_run es0 text_init; m = hManager (handles s0 h);
        s1 = release_text h answers s0 in
      h < nextHandle s0 \<and> \<not> released (handles s0 h) \<and> \<not> graceTimer (heap s0 m)
        \<and> graceTimer (heap s1 m) \<and> window_run m es s1 \<longrightarrow>
        pushLog s1 = pushLog s0
      \<and> (\<exists>new. pushLog (text_run es s1) = pushLog s0 @ new
            \<and> (\<forall>f t. (m, f, t) \<in> set new \<longrightarrow> t = graceText (heap s0 m))))
   \<and> (managers s (argKey p) = Some m' \<and> graceTimer (heap s m') \<longrightarrow>
        (let r = acquireThreadStatus_text p s in
           handles (snd r) (fst r) = \<lparr>hManager = m', released = False, shouldGrace = argShouldGrace p\<rparr>
         \<and> \<not> graceTimer (heap (snd r) m')
         \<and> managers (snd r) = managers s
         \<and> pushLog (snd r) = pushLog s
         \<and> currentText (heap (snd r) m') = currentText (heap s m')
         \<and> graceTimerFired_text m' (snd r) = snd r))"
proof -
  define s0 where "s0 = text_run es0 text_init"
  define m where "m = hManager (handles s0 h)"
  define s1 where "s1 = release_text h answers s0"
  have wf: "status_wf s0" unfolding s0_def by (simp add: text_wf_run text_wf_init)
  have a: "pushLog s1 = pushLog s0
      \<and> (\<exists>new. pushLog (text_run es s1) = pushLog s0 @ new
            \<and> (\<forall>f t. (m, f, t) \<in> set new \<longrightarrow> t = graceText (heap s0 m)))"
    if h: "h < nextHandle s0" "\<not> released (handles s0 h)" "\<not> graceTimer (heap s0 m)"
      "graceTimer (heap s1 m)" "window_run m es s1"
  proof -
    from wf h(1) have lt: "m < nextManager s0" by (simp add: status_wf_def m_def)
    note R = release_starts_grace[OF h(2) h(3)[unfolded m_def] h(4)[unfolded m_def s1_def]]
    have "window_inv m (graceText (heap s0 m)) s1"
      using R lt by (simp add: window_inv_def m_def s1_def)
    from window_run_pushes[OF this h(5)] R(1) show ?thesis
      by (simp add: s1_def)
  qed
  have b: "handles (snd (acquireThreadStatus_text p s)) (fst (acquireThreadStatus_text p s))
             = \<lparr>hManager = m', released = False, shouldGrace = argShouldGrace p\<rparr>
         \<and> \<not> graceTimer (heap (snd (acquireThreadStatus_text p s)) m')
         \<and> managers (snd (acquireThreadStatus_text p s)) = managers s
         \<and> pushLog (snd (acquireThreadStatus_text p s)) = pushLog s
         \<and> currentText (heap (snd (acquireThreadStatus_text p s)) m') = currentText (heap s m')
         \<and> graceTimerFired_text m' (snd (acquireThreadStatus_text p s))
             = snd (acquireThreadStatus_text p s)"
    if reg: "managers s (argKey p) = Some m'"
    using acquire_existing_text(1,2,3,6,7,8)[OF reg]
    by (simp add: graceTimerFired_text_def)
  from a b show ?thesis
    unfolding s0_def[symmetric] m_def[symmetric] s1_def[symmetric] Let_def
    by (simp add: m_def[symmetric] s1_def[symmetric])
qed

lemma grace_window_own_pushes_example:
  "0 < nextHandle text_held_example
   \<and> \<not> released (handles text_held_example 0)
   \<and> \<not> graceTimer (heap text_held_example (hManager (handles text_held_example 0)))
   \<and> graceTimer (heap (release_text 0 (\<lambda>_. True) text_held_example)
         (hManager (handles text_held_example 0)))
   \<and> window_run (hManager (handles text_held_example 0))
        [PushTimerTick 0, Acquire_text text_params_other, TickSettled 0 True, PushTimerTick 0]
        (release_text 0 (\<lambda>_. True) text_held_example)
   \<and> (\<exists>new. pushLog (text_run [PushTimerTick 0, Acquire_text text_params_other,
                 TickSettled 0 True, PushTimerTick 0]
                 (release_text 0 (\<lambda>_. True) text_held_example)) = pushLog text_held_example @ new
          \<and> (0, 7, []) \<notin> set new)
   \<and> managers (release_text 0 (\<lambda>_. True) text_held_example) (argKey text_params_other) = Some 0
   \<and> \<not> graceTimer (heap (snd (acquireThreadStatus_text text_params_other
          (release_text 0 (\<lambda>_. True) text_held_example))) 0)"
proof -
  have k: "argKey text_params_other = ''C1:T1''" by (simp add: text_params_other_def)
  note T = grace_window_own_pushes[of
      "[Acquire_text text_params_example, SetStatus_text 0 ''a'', TickSettled 0 True]" 0
      "\<lambda>_. True"
      "[PushTimerTick 0, Acquire_text text_params_other, TickSettled 0 True, PushTimerTick 0]"
      "release_text 0 (\<lambda>_. True) text_held_example" text_params_other 0,
      folded text_held_example_def, unfolded Let_def]
  from T ex_text_held ex_text_window(1) k
  have w: "\<exists>new. pushLog (text_run [PushTimerTick 0, Acquire_text text_params_other,
                 TickSettled 0 True, PushTimerTick 0]
                 (release_text 0 (\<lambda>_. True) text_held_example)) = pushLog text_held_example @ new
          \<and> (\<forall>f t. (0, f, t) \<in> set new \<longrightarrow> t = ''is thinking...'')"
    and c: "\<not> graceTimer (heap (snd (acquireThreadStatus_text text_params_other
          (release_text 0 (\<lambda>_. True) text_held_example))) 0)"
    by auto
  from w obtain new where
    n: "pushLog (text_run [PushTimerTick 0, Acquire_text text_params_other,
                 TickSettled 0 True, PushTimerTick 0]
                 (release_text 0 (\<lambda>_. True) text_held_example)) = pushLog text_held_example @ new"
    "\<forall>f t. (0, f, t) \<in> set new \<longrightarrow> t = ''is thinking...''" by blast
  then have "(0, 7, []) \<notin> set new" by auto
  with n(1) have e: "\<exists>new. pushLog (text_run [PushTimerTick 0, Acquire_text text_params_other,
                 TickSettled 0 True, PushTimerTick 0]
                 (release_text 0 (\<lambda>_. True) text_held_example)) = pushLog text_held_example @ new
          \<and> (0, 7, []) \<notin> set new" by blast
  show ?thesis
    using e c ex_text_held ex_text_window(1) k by simp
qed

text \<open>
  Claim C6 at two failing inputs of the text variant, both with the default grace text.
  In \<open>text_stale_loop_example\<close> and \<open>text_stale_idle_example\<close> manager 1 is registered
  under \<open>C1:T1\<close> with its grace timer pending, and manager 0, built earlier for the same
  key and unregistered while held, is still held by handle 1.

  First input: handle 1 is released with \<open>shouldGrace\<close> answering false. Manager 0 pushes
  the empty string through the same push function while the grace timer of manager 1
  is pending; the handle acquired next belongs to manager 1, the timer is canceled, and
  the empty string is in the log before that handle sets its status.

  Second input: handle 1 is released while manager 0 has no text. Its \<open>destroy\<close> deletes
  the entry of the key, which is manager 1's. The handle acquired next therefore
  belongs to a new manager 2, the grace timer of manager 1 is still pending, and when
  it fires manager 1 pushes the empty string, before the new holder sets its status.
\<close>

theorem grace_window_empty_push:
  "managers text_stale_loop_example ''C1:T1'' = Some 1
   \<and> graceTimer (heap text_stale_loop_example 1)
   \<and> currentText (heap text_stale_loop_example 1) = ''is thinking...''
   \<and> hManager (handles text_stale_loop_example 1) = 0
   \<and> \<not> released (handles text_stale_loop_example 1)
   \<and> pushLog text_stale_loop_example = [(0, 7, ''a''), (0, 7, []), (0, 7, ''x''), (1, 7, ''b'')]
   \<and> graceTimer (heap (text_run [Release_text 1 (\<lambda>_. False)] text_stale_loop_example) 1)
   \<and> pushLog (text_run [Release_text 1 (\<lambda>_. False)] text_stale_loop_example)
        = [(0, 7, ''a''), (0, 7, []), (0, 7, ''x''), (1, 7, ''b''), (0, 7, [])]
   \<and> hManager (handles (text_run [Release_text 1 (\<lambda>_. False), Acquire_text text_params_example]
        text_stale_loop_example) 3) = 1
   \<and> \<not> graceTimer (heap (text_run [Release_text 1 (\<lambda>_. False), Acquire_text text_params_example]
        text_stale_loop_example) 1)
   \<and> pushLog (text_run [Release_text 1 (\<lambda>_. False), Acquire_text text_params_example,
        SetStatus_text 3 ''c''] text_stale_loop_example)
        = [(0, 7, ''a''), (0, 7, []), (0, 7, ''x''), (1, 7, ''b''), (0, 7, [])]
   \<and> managers text_stale_idle_example ''C1:T1'' = Some 1
   \<and> graceTimer (heap text_stale_idle_example 1)
   \<and> hManager (handles text_stale_idle_example 1) = 0
   \<and> \<not> released (handles text_stale_idle_example 1)
   \<and> pushLog text_stale_idle_example = [(0, 7, ''a''), (0, 7, []), (1, 7, ''b'')]
   \<and> managers (text_run [Release_text 1 (\<lambda>_. True)] text_stale_idle_example) ''C1:T1'' = None
   \<and> graceTimer (heap (text_run [Release_text 1 (\<lambda>_. True)] text_stale_idle_example) 1)
   \<and> managers (text_run [Release_text 1 (\<lambda>_. True), Acquire_text text_params_example]
        text_stale_idle_example) ''C1:T1'' = Some 2
   \<and> hManager (handles (text_run [Release_text 1 (\<lambda>_. True), Acquire_text text_params_example]
        text_stale_idle_example) 3) = 2
   \<and> graceTimer (heap (text_run [Release_text 1 (\<lambda>_. True), Acquire_text text_params_example]
        text_stale_idle_example) 1)
   \<and> pushLog (text_run [Release_text 1 (\<lambda>_. True), Acquire_text text_params_example,
        GraceTimerFired_text 1] text_stale_idle_example)
        = [(0, 7, ''a''), (0, 7, []), (1, 7, ''b''), (1, 7, [])]
   \<and> pushLog (text_run [Release_text 1 (\<lambda>_. True), Acquire_text text_params_example,
        GraceTimerFired_text 1, SetStatus_text 3 ''c''] text_stale_idle_example)
        = [(0, 7, ''a''), (0, 7, []), (1, 7, ''b''), (1, 7, []), (2, 7, ''c'')]"
  by (simp add: text_stale_loop_example_def text_stale_idle_example_def text_race_example_def
      text_eval)


subsection \<open>The lifecycle of a manager in the phase variant\<close>

text \<open>
  In the phase variant every destroy is synchronous, and the entry of a manager leaves
  the map exactly at a release that brings its counter from 1 to 0 with the grace
  decision resolving to stop, or when its pending grace timer fires; the counter is 0
  then.
\<close>

lemma phase_view_fields:
  assumes "phase_view s' = phase_view s"
  shows "managers s' = managers s" "handles s' = handles s" "nextHandle s' = nextHandle s"
    "nextManager s' = nextManager s" "key (heap s' m) = key (heap s m)"
    "activeHandles (heap s' m) = activeHandles (heap s m)"
    "graceTimer (heap s' m) = graceTimer (heap s m)"
  using assms by (auto simp: phase_view_def fun_eq_iff)

lemma phase_inv_view:
  assumes "phase_view s' = phase_view s" "phase_inv s"
  shows "phase_inv s'"
proof -
  note F = phase_view_fields[OF assms(1)]
  have L: "liveHandles s' m = liveHandles s m" for m
    by (simp add: liveHandles_def F)
  show ?thesis
    using assms(2) unfolding phase_inv_def status_wf_def F L .
qed

lemma view_pushOnce: "phase_view (pushOnce_phase m t s) = phase_view s"
  by (simp add: phase_view_def pushOnce_phase_def updManager_def fun_eq_iff)

lemma view_stopCounter: "phase_view (stopCounter m s) = phase_view s"
  by (simp add: phase_view_def stopCounter_def updManager_def fun_eq_iff)

lemma view_setPhase: "phase_view (setPhase m p s) = phase_view s"
  by (simp add: phase_view_def setPhase_def pushOnce_phase_def stopCounter_def updManager_def
      Let_def fun_eq_iff)

lemma view_counterTick: "phase_view (counterTick m s) = phase_view s"
  by (simp add: phase_view_def counterTick_def pushOnce_phase_def updManager_def Let_def fun_eq_iff)

lemma view_pushSettled: "phase_view (pushSettled m ok s) = phase_view s"
  by (simp add: phase_view_def pushSettled_def reportError_def updManager_def fun_eq_iff
      split: option.splits)

lemma view_rePush: "phase_view (rePush m s) = phase_view s"
  by (simp add: rePush_def view_pushOnce split: option.splits)

lemma view_quiet:
  "phase_view (setStatus_phase h p s) = phase_view s"
  "phase_view (pause h s) = phase_view s"
  "phase_view (pushCurrentStatus k s) = phase_view s"
  by (simp_all add: setStatus_phase_def pause_def pushCurrentStatus_def view_setPhase
      view_stopCounter view_rePush split: option.splits)


lemma phase_invD:
  assumes "phase_inv s"
  shows "managers s k = Some m \<Longrightarrow> m < nextManager s"
    and "h < nextHandle s \<Longrightarrow> hManager (handles s h) < nextManager s"
    and "managers s k = Some m \<Longrightarrow> key (heap s m) = k"
    and "activeHandles (heap s m) = int (card (liveHandles s m))"
    and "0 < activeHandles (heap s m) \<Longrightarrow> managers s (key (heap s m)) = Some m"
    and "graceTimer (heap s m) \<Longrightarrow> managers s (key (heap s m)) = Some m"
    and "graceTimer (heap s m) \<Longrightarrow> activeHandles (heap s m) = 0"
  using assms unfolding phase_inv_def status_wf_def by blast+

lemma phase_invI:
  assumes "\<And>k m. managers s k = Some m \<Longrightarrow> m < nextManager s"
    and "\<And>h. h < nextHandle s \<Longrightarrow> hManager (handles s h) < nextManager s"
    and "\<And>k m. managers s k = Some m \<Longrightarrow> key (heap s m) = k"
    and "\<And>m. activeHandles (heap s m) = int (card (liveHandles s m))"
    and "\<And>m. 0 < activeHandles (heap s m) \<Longrightarrow> managers s (key (heap s m)) = Some m"
    and "\<And>m. graceTimer (heap s m) \<Longrightarrow> managers s (key (heap s m)) = Some m"
    and "\<And>m. graceTimer (heap s m) \<Longrightarrow> activeHandles (heap s m) = 0"
  shows "phase_inv s"
  using assms unfolding phase_inv_def status_wf_def by blast

lemma finite_liveHandles: "finite (liveHandles s m)"
  by (simp add: liveHandles_def)

lemma liveHandles_wf:
  "phase_inv s \<Longrightarrow> h \<in> liveHandles s m \<Longrightarrow> m < nextManager s"
  using phase_invD(2)[of s h] by (auto simp: liveHandles_def)

lemma acquire_phase_existing:
  assumes "managers s (prmKey p) = Some m"
  defines "s' \<equiv> snd (acquireThreadStatus_phase p s)"
  shows "managers s' = managers s" "nextManager s' = nextManager s"
    "nextHandle s' = Suc (nextHandle s)"
    "handles s' = (handles s)(nextHandle s := \<lparr>hManager = m, released = False, shouldGrace = prmShouldGrace p\<rparr>)"
    "key (heap s' x) = key (heap s x)"
    "activeHandles (heap s' x) = (if x = m then activeHandles (heap s x) + 1 else activeHandles (heap s x))"
    "graceTimer (heap s' x) = (if x = m then False else graceTimer (heap s x))"
  using assms(1) unfolding s'_def
  by (simp_all add: acquireThreadStatus_phase_def status_defs Let_def)

lemma acquire_phase_new:
  assumes "managers s (prmKey p) = None"
  defines "s' \<equiv> snd (acquireThreadStatus_phase p s)"
  shows "managers s' = (managers s)(prmKey p \<mapsto> nextManager s)" "nextManager s' = Suc (nextManager s)"
    "nextHandle s' = Suc (nextHandle s)"
    "handles s' = (handles s)(nextHandle s := \<lparr>hManager = nextManager s, released = False, shouldGrace = prmShouldGrace p\<rparr>)"
    "key (heap s' x) = (if x = nextManager s then prmKey p else key (heap s x))"
    "activeHandles (heap s' x) = (if x = nextManager s then 1 else activeHandles (heap s x))"
    "graceTimer (heap s' x) = (if x = nextManager s then False else graceTimer (heap s x))"
  using assms(1) unfolding s'_def
  by (simp_all add: acquireThreadStatus_phase_def status_defs Let_def new_phase_manager_def)

lemma liveHandles_acquire:
  assumes "nextHandle s' = Suc (nextHandle s)"
    "handles s' = (handles s)(nextHandle s := \<lparr>hManager = m, released = False, shouldGrace = sg\<rparr>)"
  shows "liveHandles s' x = (if x = m then insert (nextHandle s) (liveHandles s x) else liveHandles s x)"
  using assms by (auto simp: liveHandles_def less_Suc_eq)

lemma card_liveHandles_acquire:
  assumes "nextHandle s' = Suc (nextHandle s)"
    "handles s' = (handles s)(nextHandle s := \<lparr>hManager = m, released = False, shouldGrace = sg\<rparr>)"
  shows "int (card (liveHandles s' x)) = (if x = m then int (card (liveHandles s x)) + 1 else int (card (liveHandles s x)))"
proof -
  have "nextHandle s \<notin> liveHandles s x" by (simp add: liveHandles_def)
  then have "card (insert (nextHandle s) (liveHandles s x)) = Suc (card (liveHandles s x))"
    by (simp add: finite_liveHandles)
  then show ?thesis
    by (auto simp: liveHandles_acquire[OF assms])
qed


lemma phase_inv_acquire:
  assumes inv: "phase_inv s"
  shows "phase_inv (snd (acquireThreadStatus_phase p s))"
proof (cases "managers s (prmKey p)")
  case (Some m)
  note F = acquire_phase_existing[OF Some]
  note C = card_liveHandles_acquire[OF F(3) F(4)]
  note D = phase_invD[OF inv]
  have reg: "managers s (key (heap s m)) = Some m" using D(3)[OF Some] Some by simp
  show ?thesis
  proof (rule phase_invI)
    fix k x assume "managers (snd (acquireThreadStatus_phase p s)) k = Some x"
    then show "x < nextManager (snd (acquireThreadStatus_phase p s))" "key (heap (snd (acquireThreadStatus_phase p s)) x) = k"
      using D(1,3) by (simp_all add: F)
  next
    fix h assume "h < nextHandle (snd (acquireThreadStatus_phase p s))"
    then show "hManager (handles (snd (acquireThreadStatus_phase p s)) h) < nextManager (snd (acquireThreadStatus_phase p s))"
      using D(2)[of h] D(1)[OF Some] by (auto simp: F less_Suc_eq)
  next
    fix x show "activeHandles (heap (snd (acquireThreadStatus_phase p s)) x)
        = int (card (liveHandles (snd (acquireThreadStatus_phase p s)) x))"
      using D(4) by (simp add: F C)
  next
    fix x assume "0 < activeHandles (heap (snd (acquireThreadStatus_phase p s)) x)"
    then show "managers (snd (acquireThreadStatus_phase p s)) (key (heap (snd (acquireThreadStatus_phase p s)) x)) = Some x"
      using D(5)[of x] reg by (auto simp: F split: if_splits)
  next
    fix x assume g: "graceTimer (heap (snd (acquireThreadStatus_phase p s)) x)"
    then show "managers (snd (acquireThreadStatus_phase p s)) (key (heap (snd (acquireThreadStatus_phase p s)) x)) = Some x"
      using D(6)[of x] by (auto simp: F split: if_splits)
    from g show "activeHandles (heap (snd (acquireThreadStatus_phase p s)) x) = 0"
      using D(7)[of x] by (auto simp: F split: if_splits)
  qed
next
  case None
  note F = acquire_phase_new[OF None]
  note C = card_liveHandles_acquire[OF F(3) F(4)]
  note D = phase_invD[OF inv]
  let ?n = "nextManager s"
  have fresh0: "liveHandles s ?n = {}"
    using liveHandles_wf[OF inv, of _ ?n] by auto
  then have a0: "activeHandles (heap s ?n) = 0" using D(4)[of ?n] by simp
  then have g0: "\<not> graceTimer (heap s ?n)"
    using D(6)[of ?n] D(1)[of "key (heap s ?n)" ?n] by auto
  show ?thesis
  proof (rule phase_invI)
    fix k x assume "managers (snd (acquireThreadStatus_phase p s)) k = Some x"
    then show "x < nextManager (snd (acquireThreadStatus_phase p s))" "key (heap (snd (acquireThreadStatus_phase p s)) x) = k"
      using D(1)[of k x] D(3)[of k x] by (auto simp: F split: if_splits)
  next
    fix h assume "h < nextHandle (snd (acquireThreadStatus_phase p s))"
    then show "hManager (handles (snd (acquireThreadStatus_phase p s)) h) < nextManager (snd (acquireThreadStatus_phase p s))"
      using D(2)[of h] by (auto simp: F less_Suc_eq)
  next
    fix x show "activeHandles (heap (snd (acquireThreadStatus_phase p s)) x)
        = int (card (liveHandles (snd (acquireThreadStatus_phase p s)) x))"
      using D(4)[of x] fresh0 by (simp add: F C)
  next
    fix x assume "0 < activeHandles (heap (snd (acquireThreadStatus_phase p s)) x)"
    then show "managers (snd (acquireThreadStatus_phase p s)) (key (heap (snd (acquireThreadStatus_phase p s)) x)) = Some x"
      using D(5)[of x] None by (auto simp: F split: if_splits)
  next
    fix x assume g: "graceTimer (heap (snd (acquireThreadStatus_phase p s)) x)"
    then show "managers (snd (acquireThreadStatus_phase p s)) (key (heap (snd (acquireThreadStatus_phase p s)) x)) = Some x"
      using D(6)[of x] None by (auto simp: F split: if_splits)
    from g show "activeHandles (heap (snd (acquireThreadStatus_phase p s)) x) = 0"
      using D(7)[of x] by (auto simp: F split: if_splits)
  qed
qed


lemma release_phase_common:
  fixes s :: phase_sys
  assumes "\<not> released (handles s h)"
  shows "handles (release_phase h a s) = (handles s)(h := (handles s h)\<lparr>released := True\<rparr>)"
    "nextHandle (release_phase h a s) = nextHandle s"
    "nextManager (release_phase h a s) = nextManager s"
    "key (heap (release_phase h a s) x) = key (heap s x)"
    "activeHandles (heap (release_phase h a s) x) =
       (if x = hManager (handles s h) then max 0 (activeHandles (heap s x) - 1)
        else activeHandles (heap s x))"
  using assms by (simp_all add: phase_defs status_defs Let_def)

lemma release_phase_more:
  fixes s :: phase_sys
  assumes "\<not> released (handles s h)" "1 < activeHandles (heap s (hManager (handles s h)))"
  shows "managers (release_phase h a s) = managers s"
    "graceTimer (heap (release_phase h a s) x) = graceTimer (heap s x)"
  using assms by (simp_all add: phase_defs status_defs Let_def)

lemma release_phase_stop:
  fixes s :: phase_sys
  assumes "\<not> released (handles s h)" "activeHandles (heap s (hManager (handles s h))) \<le> 1"
    "stopsAtRelease s h a"
  shows "managers (release_phase h a s) = (managers s)(key (heap s (hManager (handles s h))) := None)"
    "graceTimer (heap (release_phase h a s) x) =
       (if x = hManager (handles s h) then False else graceTimer (heap s x))"
  using assms by (auto simp: phase_defs status_defs Let_def stopsAtRelease_def)

lemma release_phase_grace:
  fixes s :: phase_sys
  assumes "\<not> released (handles s h)" "activeHandles (heap s (hManager (handles s h))) \<le> 1"
    "\<not> stopsAtRelease s h a"
  shows "managers (release_phase h a s) = managers s"
    "graceTimer (heap (release_phase h a s) x) =
       (if x = hManager (handles s h) then True else graceTimer (heap s x))"
  using assms by (auto simp: phase_defs status_defs Let_def stopsAtRelease_def)

lemma liveHandles_release:
  assumes "handles s' = (handles s)(h := (handles s h)\<lparr>released := True\<rparr>)"
    "nextHandle s' = nextHandle s"
  shows "liveHandles s' x = liveHandles s x - {h}"
  using assms by (auto simp: liveHandles_def)

lemma card_liveHandles_release:
  assumes "handles s' = (handles s)(h := (handles s h)\<lparr>released := True\<rparr>)"
    "nextHandle s' = nextHandle s" "h < nextHandle s" "\<not> released (handles s h)"
  shows "int (card (liveHandles s' x)) =
           (if x = hManager (handles s h) then int (card (liveHandles s x)) - 1
            else int (card (liveHandles s x)))"
    and "0 < card (liveHandles s (hManager (handles s h)))"
proof -
  have mem: "h \<in> liveHandles s (hManager (handles s h))"
    using assms(3,4) by (simp add: liveHandles_def)
  then show pos: "0 < card (liveHandles s (hManager (handles s h)))"
    using finite_liveHandles[of s "hManager (handles s h)"] by (auto simp: card_gt_0_iff)
  have other: "h \<notin> liveHandles s x" if "x \<noteq> hManager (handles s h)"
    using that by (auto simp: liveHandles_def)
  show "int (card (liveHandles s' x)) =
           (if x = hManager (handles s h) then int (card (liveHandles s x)) - 1
            else int (card (liveHandles s x)))"
  proof (cases "x = hManager (handles s h)")
    case True
    with mem have "card (liveHandles s x - {h}) = card (liveHandles s x) - 1"
      by (simp add: finite_liveHandles)
    with True pos show ?thesis
      by (simp add: liveHandles_release[OF assms(1,2)] of_nat_diff)
  next
    case False
    with other show ?thesis by (simp add: liveHandles_release[OF assms(1,2)])
  qed
qed


lemma phase_inv_release:
  assumes inv: "phase_inv s" and lt: "h < nextHandle s"
  shows "phase_inv (release_phase h a s)"
proof (cases "released (handles s h)")
  case True
  then show ?thesis using inv by (simp add: release_phase_def)
next
  case live: False
  let ?m = "hManager (handles s h)"
  let ?s' = "release_phase h a s"
  note D = phase_invD[OF inv]
  note F = release_phase_common[OF live, of a]
  note C = card_liveHandles_release[OF F(1) F(2) lt live]
  have pos: "0 < activeHandles (heap s ?m)" using C(2) D(4)[of ?m] by simp
  have reg: "managers s (key (heap s ?m)) = Some ?m" using D(5)[OF pos] .
  have uniq: "key (heap s x) \<noteq> key (heap s ?m)"
    if "x \<noteq> ?m" "managers s (key (heap s x)) = Some x" for x
    using that reg by auto
  have act: "activeHandles (heap ?s' x) = int (card (liveHandles ?s' x))" for x
    using D(4)[of x] pos by (auto simp: F(5) C(1))
  consider (more) "1 < activeHandles (heap s ?m)"
    | (stop) "activeHandles (heap s ?m) \<le> 1" "stopsAtRelease s h a"
    | (grace) "activeHandles (heap s ?m) \<le> 1" "\<not> stopsAtRelease s h a"
    by linarith
  then show ?thesis
  proof cases
    case more
    note G = release_phase_more[OF live more, of a]
    show ?thesis
    proof (rule phase_invI)
      fix k x assume "managers ?s' k = Some x"
      then show "x < nextManager ?s'" "key (heap ?s' x) = k"
        using D(1,3) by (simp_all add: F G)
    next
      fix h' assume "h' < nextHandle ?s'"
      then show "hManager (handles ?s' h') < nextManager ?s'"
        using D(2)[of h'] by (auto simp: F)
    next
      fix x show "activeHandles (heap ?s' x) = int (card (liveHandles ?s' x))" by (rule act)
    next
      fix x assume "0 < activeHandles (heap ?s' x)"
      then show "managers ?s' (key (heap ?s' x)) = Some x"
        using D(5)[of x] reg by (auto simp: F G split: if_splits)
    next
      fix x assume g: "graceTimer (heap ?s' x)"
      then show "managers ?s' (key (heap ?s' x)) = Some x"
        using D(6)[of x] by (simp add: F G)
      from g show "activeHandles (heap ?s' x) = 0"
        using D(7)[of x] more by (auto simp: F G split: if_splits)
    qed
  next
    case stop
    note G = release_phase_stop[OF live stop]
    show ?thesis
    proof (rule phase_invI)
      fix k x assume "managers ?s' k = Some x"
      then show "x < nextManager ?s'" "key (heap ?s' x) = k"
        using D(1)[of k x] D(3)[of k x] by (auto simp: F G split: if_splits)
    next
      fix h' assume "h' < nextHandle ?s'"
      then show "hManager (handles ?s' h') < nextManager ?s'"
        using D(2)[of h'] by (auto simp: F)
    next
      fix x show "activeHandles (heap ?s' x) = int (card (liveHandles ?s' x))" by (rule act)
    next
      fix x assume p: "0 < activeHandles (heap ?s' x)"
      with stop(1) have ne: "x \<noteq> ?m" by (auto simp: F)
      with p have "managers s (key (heap s x)) = Some x" using D(5)[of x] by (simp add: F)
      with uniq[OF ne] show "managers ?s' (key (heap ?s' x)) = Some x"
        by (simp add: F G)
    next
      fix x assume g: "graceTimer (heap ?s' x)"
      then have ne: "x \<noteq> ?m" and g0: "graceTimer (heap s x)" by (auto simp: G split: if_splits)
      from D(6)[OF g0] uniq[OF ne] show "managers ?s' (key (heap ?s' x)) = Some x"
        by (simp add: F G)
      from D(7)[OF g0] ne show "activeHandles (heap ?s' x) = 0" by (simp add: F)
    qed
  next
    case grace
    note G = release_phase_grace[OF live grace]
    show ?thesis
    proof (rule phase_invI)
      fix k x assume "managers ?s' k = Some x"
      then show "x < nextManager ?s'" "key (heap ?s' x) = k"
        using D(1,3) by (simp_all add: F G)
    next
      fix h' assume "h' < nextHandle ?s'"
      then show "hManager (handles ?s' h') < nextManager ?s'"
        using D(2)[of h'] by (auto simp: F)
    next
      fix x show "activeHandles (heap ?s' x) = int (card (liveHandles ?s' x))" by (rule act)
    next
      fix x assume "0 < activeHandles (heap ?s' x)"
      then show "managers ?s' (key (heap ?s' x)) = Some x"
        using D(5)[of x] reg by (auto simp: F G split: if_splits)
    next
      fix x assume g: "graceTimer (heap ?s' x)"
      then show "managers ?s' (key (heap ?s' x)) = Some x"
        using D(6)[of x] reg by (auto simp: F G split: if_splits)
      from g show "activeHandles (heap ?s' x) = 0"
        using D(7)[of x] grace(1) by (auto simp: F G split: if_splits)
    qed
  qed
qed

lemma graceFired_phase_fields:
  fixes s :: phase_sys
  assumes "graceTimer (heap s m)"
  shows "managers (graceTimerFired_phase m s) = (managers s)(key (heap s m) := None)"
    "handles (graceTimerFired_phase m s) = handles s"
    "nextHandle (graceTimerFired_phase m s) = nextHandle s"
    "nextManager (graceTimerFired_phase m s) = nextManager s"
    "key (heap (graceTimerFired_phase m s) x) = key (heap s x)"
    "activeHandles (heap (graceTimerFired_phase m s) x) = activeHandles (heap s x)"
    "graceTimer (heap (graceTimerFired_phase m s) x) = (if x = m then False else graceTimer (heap s x))"
  using assms by (simp_all add: phase_defs status_defs Let_def)

lemma phase_inv_graceFired:
  assumes inv: "phase_inv s"
  shows "phase_inv (graceTimerFired_phase m s)"
proof (cases "graceTimer (heap s m)")
  case False
  then show ?thesis using inv by (simp add: graceTimerFired_phase_def)
next
  case True
  let ?s' = "graceTimerFired_phase m s"
  note D = phase_invD[OF inv]
  note F = graceFired_phase_fields[OF True]
  have reg: "managers s (key (heap s m)) = Some m" using D(6)[OF True] .
  have zero: "activeHandles (heap s m) = 0" using D(7)[OF True] .
  have L: "liveHandles ?s' x = liveHandles s x" for x
    by (simp add: liveHandles_def F)
  have uniq: "key (heap s x) \<noteq> key (heap s m)"
    if "x \<noteq> m" "managers s (key (heap s x)) = Some x" for x
    using that reg by auto
  show ?thesis
  proof (rule phase_invI)
    fix k x assume "managers ?s' k = Some x"
    then show "x < nextManager ?s'" "key (heap ?s' x) = k"
      using D(1)[of k x] D(3)[of k x] by (auto simp: F split: if_splits)
  next
    fix h' assume "h' < nextHandle ?s'"
    then show "hManager (handles ?s' h') < nextManager ?s'"
      using D(2)[of h'] by (simp add: F)
  next
    fix x show "activeHandles (heap ?s' x) = int (card (liveHandles ?s' x))"
      using D(4)[of x] by (simp add: F L)
  next
    fix x assume p: "0 < activeHandles (heap ?s' x)"
    with zero have ne: "x \<noteq> m" by (auto simp: F)
    from p have "managers s (key (heap s x)) = Some x" using D(5)[of x] by (simp add: F)
    with uniq[OF ne] show "managers ?s' (key (heap ?s' x)) = Some x" by (simp add: F)
  next
    fix x assume g: "graceTimer (heap ?s' x)"
    then have ne: "x \<noteq> m" and g0: "graceTimer (heap s x)" by (auto simp: F split: if_splits)
    from D(6)[OF g0] uniq[OF ne] show "managers ?s' (key (heap ?s' x)) = Some x" by (simp add: F)
    from D(7)[OF g0] show "activeHandles (heap ?s' x) = 0" by (simp add: F)
  qed
qed

lemma phase_inv_init: "phase_inv phase_init"
  by (rule phase_invI) (simp_all add: phase_init_def blank_phase_manager_def liveHandles_def)

lemma phase_inv_step: "phase_inv s \<Longrightarrow> phase_inv (phase_step e s)"
  by (cases e)
    (auto simp: phase_inv_acquire phase_inv_release phase_inv_graceFired
      intro: phase_inv_view view_quiet view_counterTick view_pushSettled)

lemma phase_inv_run: "phase_inv s \<Longrightarrow> phase_inv (phase_run es s)"
  by (induction es arbitrary: s) (simp_all add: phase_inv_step del: phase_step.simps)


lemma phase_entry_removed_iff:
  assumes inv: "phase_inv s" and reg: "managers s k = Some m"
  shows "managers (phase_step e s) k \<noteq> Some m \<longleftrightarrow>
           (\<exists>h a. e = Release_phase h a \<and> h \<in> liveHandles s m
                \<and> activeHandles (heap s m) = 1 \<and> stopsAtRelease s h a)
         \<or> (e = GraceTimerFired_phase m \<and> graceTimer (heap s m))"
proof -
  note D = phase_invD[OF inv]
  have km: "key (heap s m) = k" using D(3)[OF reg] .
  have same_key: "x = m" if "key (heap s x) = k" "managers s (key (heap s x)) = Some x" for x
    using that reg by simp
  show ?thesis
  proof (cases e)
    case (Acquire_phase p)
    have "managers (snd (acquireThreadStatus_phase p s)) k = Some m"
    proof (cases "managers s (prmKey p)")
      case None
      with reg have "prmKey p \<noteq> k" by auto
      then show ?thesis using reg by (simp add: acquire_phase_new(1)[OF None])
    next
      case (Some x)
      then show ?thesis using reg by (simp add: acquire_phase_existing(1)[OF Some])
    qed
    with Acquire_phase show ?thesis by simp
  next
    case (SetStatus_phase h p)
    then show ?thesis using reg phase_view_fields(1)[OF view_quiet(1)[of h p s]] by simp
  next
    case (Pause h)
    then show ?thesis using reg phase_view_fields(1)[OF view_quiet(2)[of h s]] by simp
  next
    case (PushCurrentStatus k')
    then show ?thesis using reg phase_view_fields(1)[OF view_quiet(3)[of k' s]] by simp
  next
    case (CounterTick x)
    then show ?thesis using reg phase_view_fields(1)[OF view_counterTick[of x s]] by simp
  next
    case (PushSettled x ok)
    then show ?thesis using reg phase_view_fields(1)[OF view_pushSettled[of x ok s]] by simp
  next
    case (GraceTimerFired_phase x)
    show ?thesis
    proof (cases "x < nextManager s \<and> graceTimer (heap s x)")
      case False
      then have "phase_step e s = s"
        using GraceTimerFired_phase by (auto simp: graceTimerFired_phase_def)
      moreover have "\<not> (x = m \<and> graceTimer (heap s m))"
        using False D(1)[OF reg] by auto
      ultimately show ?thesis using reg GraceTimerFired_phase by simp
    next
      case True
      then have g: "graceTimer (heap s x)" by simp
      have "managers (phase_step e s) k \<noteq> Some m \<longleftrightarrow> key (heap s x) = k"
        using True reg GraceTimerFired_phase by (simp add: graceFired_phase_fields(1)[OF g])
      also have "\<dots> \<longleftrightarrow> x = m"
        using same_key[of x] D(6)[OF g] km by auto
      finally show ?thesis using GraceTimerFired_phase g by auto
    qed
  next
    case (Release_phase h a)
    show ?thesis
    proof (cases "h < nextHandle s \<and> \<not> released (handles s h)")
      case False
      then have "phase_step e s = s"
        using Release_phase by (auto simp: release_phase_def)
      moreover have "h \<notin> liveHandles s m" using False by (auto simp: liveHandles_def)
      ultimately show ?thesis using reg Release_phase by simp
    next
      case True
      then have lt: "h < nextHandle s" and live: "\<not> released (handles s h)" by simp_all
      let ?x = "hManager (handles s h)"
      have step: "phase_step e s = release_phase h a s" using Release_phase lt by simp
      have mem: "h \<in> liveHandles s m \<longleftrightarrow> ?x = m" using lt live by (simp add: liveHandles_def)
      have "0 < card (liveHandles s ?x)"
        using lt live finite_liveHandles[of s ?x] by (auto simp: card_gt_0_iff liveHandles_def)
      then have pos: "0 < activeHandles (heap s ?x)" using D(4)[of ?x] by simp
      have regx: "managers s (key (heap s ?x)) = Some ?x" using D(5)[OF pos] .
      consider (more) "1 < activeHandles (heap s ?x)"
        | (stop) "activeHandles (heap s ?x) \<le> 1" "stopsAtRelease s h a"
        | (grace) "activeHandles (heap s ?x) \<le> 1" "\<not> stopsAtRelease s h a"
        by linarith
      then show ?thesis
      proof cases
        case more
        then show ?thesis
          using step reg Release_phase mem release_phase_more(1)[OF live more, of a] by auto
      next
        case grace
        then show ?thesis
          using step reg Release_phase release_phase_grace(1)[OF live grace] by auto
      next
        case stop
        have one: "activeHandles (heap s ?x) = 1" using stop(1) pos by linarith
        have "managers (phase_step e s) k \<noteq> Some m \<longleftrightarrow> key (heap s ?x) = k"
          using step reg by (simp add: release_phase_stop(1)[OF live stop])
        also have "\<dots> \<longleftrightarrow> ?x = m"
          using same_key[of ?x] regx km by auto
        finally show ?thesis using Release_phase mem one stop(2) by auto
      qed
    qed
  qed
qed


lemma phase_entry_removed_zero:
  assumes inv: "phase_inv s" and reg: "managers s k = Some m"
    and gone: "managers (phase_step e s) k \<noteq> Some m"
  shows "activeHandles (heap (phase_step e s) m) = 0" "managers (phase_step e s) k = None"
proof -
  note D = phase_invD[OF inv]
  have km: "key (heap s m) = k" using D(3)[OF reg] .
  from phase_entry_removed_iff[OF inv reg, of e] gone
  consider (rel) h a where "e = Release_phase h a" "h \<in> liveHandles s m"
      "activeHandles (heap s m) = 1" "stopsAtRelease s h a"
    | (fire) "e = GraceTimerFired_phase m" "graceTimer (heap s m)"
    by blast
  then have "activeHandles (heap (phase_step e s) m) = 0 \<and> managers (phase_step e s) k = None"
  proof cases
    case rel
    then have lt: "h < nextHandle s" and live: "\<not> released (handles s h)"
      and hm: "hManager (handles s h) = m" by (simp_all add: liveHandles_def)
    have le: "activeHandles (heap s (hManager (handles s h))) \<le> 1" using rel(3) hm by simp
    show ?thesis
      using rel(1,3) lt hm km release_phase_common(5)[OF live, of a m]
        release_phase_stop(1)[OF live le rel(4)]
      by simp
  next
    case fire
    then show ?thesis
      using D(1)[OF reg] D(7)[OF fire(2)] km graceFired_phase_fields(1,6)[OF fire(2)]
      by simp
  qed
  then show "activeHandles (heap (phase_step e s) m) = 0" "managers (phase_step e s) k = None"
    by simp_all
qed

lemma phase_entry_removed_reachable:
  assumes "managers (phase_run zs phase_init) k = Some m"
  shows "managers (phase_step e (phase_run zs phase_init)) k \<noteq> Some m \<longleftrightarrow>
           (\<exists>h a. e = Release_phase h a \<and> h \<in> liveHandles (phase_run zs phase_init) m
                \<and> activeHandles (heap (phase_run zs phase_init) m) = 1
                \<and> stopsAtRelease (phase_run zs phase_init) h a)
         \<or> (e = GraceTimerFired_phase m \<and> graceTimer (heap (phase_run zs phase_init) m))"
    and "managers (phase_step e (phase_run zs phase_init)) k \<noteq> Some m \<Longrightarrow>
           activeHandles (heap (phase_step e (phase_run zs phase_init)) m) = 0"
  using phase_entry_removed_iff[OF phase_inv_run[OF phase_inv_init] assms]
    phase_entry_removed_zero(1)[OF phase_inv_run[OF phase_inv_init] assms]
  by blast+


subsection \<open>The handle counter\<close>

lemma text_nonneg_step:
  "\<forall>m. 0 \<le> activeHandles (heap s m) \<Longrightarrow> \<forall>m. 0 \<le> activeHandles (heap (text_step e s) m)"
  by (cases e)
    (auto simp: text_defs status_defs new_text_manager_def Let_def split: option.splits if_splits)

lemma text_nonneg_run:
  "\<forall>m. 0 \<le> activeHandles (heap s m) \<Longrightarrow> \<forall>m. 0 \<le> activeHandles (heap (text_run es s) m)"
  by (induction es arbitrary: s) (simp_all add: text_nonneg_step del: text_step.simps)

lemma phase_nonneg_step:
  "\<forall>m. 0 \<le> activeHandles (heap s m) \<Longrightarrow> \<forall>m. 0 \<le> activeHandles (heap (phase_step e s) m)"
  by (cases e)
    (auto simp: phase_defs status_defs new_phase_manager_def Let_def split: option.splits if_splits)

lemma phase_nonneg_run:
  "\<forall>m. 0 \<le> activeHandles (heap s m) \<Longrightarrow> \<forall>m. 0 \<le> activeHandles (heap (phase_run es s) m)"
  by (induction es arbitrary: s) (simp_all add: phase_nonneg_step del: phase_step.simps)

lemma activeHandles_never_negative:
  "0 \<le> activeHandles (heap (text_run es text_init) m)"
  "0 \<le> activeHandles (heap (phase_run zs phase_init) n)"
  using text_nonneg_run[of text_init es] phase_nonneg_run[of phase_init zs]
  by (simp_all add: text_init_def phase_init_def blank_text_manager_def blank_phase_manager_def)

text \<open>
  Claim C4 at a failing input of the text variant. In \<open>text_race_example\<close> the manager
  of \<open>C1:T1\<close> is registered and held by handle 1 (\<open>activeHandles\<close> is 1, no grace timer
  is pending), while the clearing push of the earlier release is still in flight. When
  that push settles, \<open>stopAndDestroy\<close> deletes the entry although the manager is held.
  The next \<open>acquireThreadStatus\<close> builds a second manager for the key; when handle 1 is
  released, the first manager's \<open>destroy\<close> deletes the second manager's entry, although
  that one is held by handle 2 and none of its handles was ever released.
\<close>

theorem text_manager_destroyed_while_held:
  "managers text_race_example ''C1:T1'' = Some 0
   \<and> activeHandles (heap text_race_example 0) = 1
   \<and> \<not> released (handles text_race_example 1)
   \<and> hManager (handles text_race_example 1) = 0
   \<and> \<not> graceTimer (heap text_race_example 0)
   \<and> oncesInFlight (heap text_race_example 0) = 1
   \<and> managers (text_run [OnceSettled 0 True] text_race_example) ''C1:T1'' = None
   \<and> activeHandles (heap (text_run [OnceSettled 0 True] text_race_example) 0) = 1
   \<and> managers (text_run [OnceSettled 0 True, Acquire_text text_params_example]
        text_race_example) ''C1:T1'' = Some 1
   \<and> hManager (handles (text_run [OnceSettled 0 True, Acquire_text text_params_example]
        text_race_example) 2) = 1
   \<and> managers (text_run [OnceSettled 0 True, Acquire_text text_params_example,
        Release_text 1 (\<lambda>_. True)] text_race_example) ''C1:T1'' = None
   \<and> activeHandles (heap (text_run [OnceSettled 0 True, Acquire_text text_params_example,
        Release_text 1 (\<lambda>_. True)] text_race_example) 1) = 1
   \<and> \<not> released (handles (text_run [OnceSettled 0 True, Acquire_text text_params_example,
        Release_text 1 (\<lambda>_. True)] text_race_example) 2)"
  by (simp add: text_race_example_def text_eval)

subsection \<open>The configuration of a manager is that of the creating call\<close>

lemma text_log_step:
  assumes "status_wf s"
  shows "\<exists>new. pushLog (text_step e s) = pushLog s @ new
           \<and> (\<forall>m f t. (m, f, t) \<in> set new \<longrightarrow> m < nextManager s \<and> f = pushFn (heap s m))"
proof -
  have h: "hManager (handles s x) < nextManager s" if "x < nextHandle s" for x
    using assms that by (simp add: status_wf_def)
  show ?thesis
    using h
    by (cases e) (auto simp: text_defs status_defs Let_def split: option.splits)
qed

lemma phase_log_step:
  assumes "status_wf s"
  shows "\<exists>new. pushLog (phase_step e s) = pushLog s @ new
           \<and> (\<forall>m f t. (m, f, t) \<in> set new \<longrightarrow> m < nextManager s \<and> f = pushFn (heap s m))"
proof -
  have h: "hManager (handles s x) < nextManager s" if "x < nextHandle s" for x
    using assms that by (simp add: status_wf_def)
  have k: "m < nextManager s" if "managers s k = Some m" for k m
    using assms that by (auto simp: status_wf_def)
  show ?thesis
    using h k
    by (cases e) (auto simp: phase_defs status_defs Let_def split: option.splits)
qed


lemma text_log_ok_step:
  assumes wf: "status_wf s" and ok: "push_log_ok s"
  shows "push_log_ok (text_step e s)"
proof -
  from text_log_step[OF wf, of e] obtain new where
    l: "pushLog (text_step e s) = pushLog s @ new" and
    n: "\<forall>m f t. (m, f, t) \<in> set new \<longrightarrow> m < nextManager s \<and> f = pushFn (heap s m)" by blast
  have keep: "m < nextManager (text_step e s) \<and> pushFn (heap (text_step e s) m) = pushFn (heap s m)"
    if "m < nextManager s" for m
    using text_config_step[OF that, of e] by (simp add: config_text_def)
  show ?thesis
    unfolding push_log_ok_def
  proof (intro allI impI)
    fix m f t assume "(m, f, t) \<in> set (pushLog (text_step e s))"
    then have "m < nextManager s \<and> f = pushFn (heap s m)"
      using l n ok unfolding push_log_ok_def by (metis Un_iff set_append)
    with keep[of m] show "m < nextManager (text_step e s) \<and> f = pushFn (heap (text_step e s) m)"
      by simp
  qed
qed

lemma phase_log_ok_step:
  assumes wf: "status_wf s" and ok: "push_log_ok s"
  shows "push_log_ok (phase_step e s)"
proof -
  from phase_log_step[OF wf, of e] obtain new where
    l: "pushLog (phase_step e s) = pushLog s @ new" and
    n: "\<forall>m f t. (m, f, t) \<in> set new \<longrightarrow> m < nextManager s \<and> f = pushFn (heap s m)" by blast
  have keep: "m < nextManager (phase_step e s) \<and> pushFn (heap (phase_step e s) m) = pushFn (heap s m)"
    if "m < nextManager s" for m
    using phase_config_step[OF that, of e] by (simp add: config_phase_def)
  show ?thesis
    unfolding push_log_ok_def
  proof (intro allI impI)
    fix m f t assume "(m, f, t) \<in> set (pushLog (phase_step e s))"
    then have "m < nextManager s \<and> f = pushFn (heap s m)"
      using l n ok unfolding push_log_ok_def by (metis Un_iff set_append)
    with keep[of m] show "m < nextManager (phase_step e s) \<and> f = pushFn (heap (phase_step e s) m)"
      by simp
  qed
qed

lemma text_log_ok_run:
  "status_wf s \<Longrightarrow> push_log_ok s \<Longrightarrow> push_log_ok (text_run es s)"
  by (induction es arbitrary: s) (simp_all add: text_log_ok_step text_wf_step del: text_step.simps)

lemma phase_log_ok_run:
  "status_wf s \<Longrightarrow> push_log_ok s \<Longrightarrow> push_log_ok (phase_run es s)"
  by (induction es arbitrary: s) (simp_all add: phase_log_ok_step phase_wf_step del: phase_step.simps)

lemma text_run_append: "text_run (es @ es') s = text_run es' (text_run es s)"
  by (induction es arbitrary: s) simp_all

lemma phase_run_append: "phase_run (es @ es') s = phase_run es' (phase_run es s)"
  by (induction es arbitrary: s) simp_all

lemma text_reachable_ok:
  "status_wf (text_run es text_init)" "push_log_ok (text_run es text_init)"
proof -
  have "push_log_ok text_init" by (simp add: push_log_ok_def text_init_def)
  then show "status_wf (text_run es text_init)" "push_log_ok (text_run es text_init)"
    by (simp_all add: text_wf_run text_wf_init text_log_ok_run)
qed

lemma phase_reachable_ok:
  "status_wf (phase_run es phase_init)" "push_log_ok (phase_run es phase_init)"
proof -
  have "push_log_ok phase_init" by (simp add: push_log_ok_def phase_init_def)
  then show "status_wf (phase_run es phase_init)" "push_log_ok (phase_run es phase_init)"
    by (simp_all add: phase_wf_run phase_wf_init phase_log_ok_run)
qed

lemma acquire_creates_text:
  assumes "managers s (argKey p0) = None"
  shows "managers (snd (acquireThreadStatus_text p0 s)) (argKey p0) = Some (nextManager s)"
    and "hManager (handles (snd (acquireThreadStatus_text p0 s)) (fst (acquireThreadStatus_text p0 s)))
           = nextManager s"
    and "config_text (heap (snd (acquireThreadStatus_text p0 s)) (nextManager s)) = created_config_text p0"
    and "nextManager s < nextManager (snd (acquireThreadStatus_text p0 s))"
  using assms
  by (simp_all add: acquireThreadStatus_text_def status_defs Let_def new_text_manager_def
      config_text_def created_config_text_def)

lemma acquire_creates_phase:
  assumes "managers s (prmKey p0) = None"
  shows "managers (snd (acquireThreadStatus_phase p0 s)) (prmKey p0) = Some (nextManager s)"
    and "hManager (handles (snd (acquireThreadStatus_phase p0 s)) (fst (acquireThreadStatus_phase p0 s)))
           = nextManager s"
    and "config_phase (heap (snd (acquireThreadStatus_phase p0 s)) (nextManager s)) = created_config_phase p0"
    and "nextManager s < nextManager (snd (acquireThreadStatus_phase p0 s))"
  using assms
  by (simp_all add: acquireThreadStatus_phase_def status_defs Let_def new_phase_manager_def
      config_phase_def created_config_phase_def)


lemma text_creating_call_governs:
  fixes es0 es es' :: "text_event list" and p0 p :: text_params
  defines "s \<equiv> text_run es0 text_init"
  defines "m \<equiv> nextManager (text_run es0 text_init)"
  defines "s1 \<equiv> text_run es (snd (acquireThreadStatus_text p0 (text_run es0 text_init)))"
  defines "s2 \<equiv> text_run es' (snd (acquireThreadStatus_text p
                    (text_run es (snd (acquireThreadStatus_text p0 (text_run es0 text_init))))))"
  assumes new: "managers s (argKey p0) = None" and reg: "managers s1 (argKey p) = Some m"
  shows "managers (snd (acquireThreadStatus_text p0 s)) (argKey p0) = Some m"
    and "hManager (handles (snd (acquireThreadStatus_text p0 s)) (fst (acquireThreadStatus_text p0 s))) = m"
    and "handles (snd (acquireThreadStatus_text p s1)) (fst (acquireThreadStatus_text p s1))
           = \<lparr>hManager = m, released = False, shouldGrace = argShouldGrace p\<rparr>"
    and "managers (snd (acquireThreadStatus_text p s1)) = managers s1"
    and "config_text (heap s2 m) = created_config_text p0"
    and "\<forall>f t. (m, f, t) \<in> set (pushLog s2) \<longrightarrow> f = argPush p0"
    and "\<forall>h a. \<not> released (handles s2 h) \<and> hManager (handles s2 h) = m
            \<and> \<not> graceTimer (heap s2 m) \<and> graceTimer (heap (release_text h a s2) m) \<longrightarrow>
            currentText (heap (release_text h a s2) m)
              = (case argGraceText p0 of None \<Rightarrow> ''is thinking...'' | Some t \<Rightarrow> t)"
    and "ticksInFlight (heap s2 m) \<noteq> 0 \<longrightarrow>
            errorLog (tickSettled m False s2)
              = errorLog s2 @ (case argOnError p0 of None \<Rightarrow> [] | Some f \<Rightarrow> [f])"
    and "oncesInFlight (heap s2 m) \<noteq> 0 \<longrightarrow>
            errorLog (onceSettled m False s2)
              = errorLog s2 @ (case argOnError p0 of None \<Rightarrow> [] | Some f \<Rightarrow> [f])"
    and "nextManager (snd (acquireThreadStatus_text p s1)) = nextManager s1"
    and "argKey p' = argKey p \<and> argShouldGrace p' = argShouldGrace p \<longrightarrow>
            acquireThreadStatus_text p' s1 = acquireThreadStatus_text p s1"
proof -
  let ?cr = "acquireThreadStatus_text p0 s"
  let ?lr = "acquireThreadStatus_text p s1"
  note C = acquire_creates_text[OF new]
  show "managers (snd ?cr) (argKey p0) = Some m" using C(1) by (simp add: m_def s_def)
  show "hManager (handles (snd ?cr) (fst ?cr)) = m" using C(2) by (simp add: m_def s_def)
  have lt0: "m < nextManager (snd ?cr)" using C(4) by (simp add: m_def s_def)
  have c1: "config_text (heap s1 m) = created_config_text p0"
    using text_config_run[OF lt0, of es] C(3) by (simp add: s1_def s_def m_def)
  note E = acquire_existing_text[OF reg]
  show "handles (snd ?lr) (fst ?lr) = \<lparr>hManager = m, released = False, shouldGrace = argShouldGrace p\<rparr>"
    using E(1,2) by simp
  show "managers (snd ?lr) = managers s1" using E(3) .
  have wf1: "status_wf s1"
    using text_reachable_ok(1)[of "es0 @ Acquire_text p0 # es"]
    by (simp add: text_run_append s1_def)
  have lt1: "m < nextManager (snd ?lr)"
    using wf1 reg by (simp add: status_wf_def E(4))
  have s2: "s2 = text_run es' (snd ?lr)" by (simp add: s2_def s1_def)
  show c2: "config_text (heap s2 m) = created_config_text p0"
    using text_config_run[OF lt1, of es'] E(5)[of m] c1 by (simp add: s2)
  have reach: "s2 = text_run (es0 @ Acquire_text p0 # es @ Acquire_text p # es') text_init"
    by (simp add: text_run_append s2_def)
  have ok: "push_log_ok s2" unfolding reach by (rule text_reachable_ok(2))
  have fn: "pushFn (heap s2 m) = argPush p0" and gt: "graceText (heap s2 m)
      = (case argGraceText p0 of None \<Rightarrow> ''is thinking...'' | Some t \<Rightarrow> t)"
    and oe: "onError (heap s2 m) = argOnError p0"
    using c2 by (simp_all add: config_text_def created_config_text_def)
  show "\<forall>f t. (m, f, t) \<in> set (pushLog s2) \<longrightarrow> f = argPush p0"
    using ok fn by (auto simp: push_log_ok_def)
  show "\<forall>h a. \<not> released (handles s2 h) \<and> hManager (handles s2 h) = m
            \<and> \<not> graceTimer (heap s2 m) \<and> graceTimer (heap (release_text h a s2) m) \<longrightarrow>
            currentText (heap (release_text h a s2) m)
              = (case argGraceText p0 of None \<Rightarrow> ''is thinking...'' | Some t \<Rightarrow> t)"
    using release_starts_grace(2)[of s2] gt by auto
  show "ticksInFlight (heap s2 m) \<noteq> 0 \<longrightarrow>
            errorLog (tickSettled m False s2)
              = errorLog s2 @ (case argOnError p0 of None \<Rightarrow> [] | Some f \<Rightarrow> [f])"
    using oe by (simp add: tickSettled_def reportError_def updManager_def split: option.splits)
  show "oncesInFlight (heap s2 m) \<noteq> 0 \<longrightarrow>
            errorLog (onceSettled m False s2)
              = errorLog s2 @ (case argOnError p0 of None \<Rightarrow> [] | Some f \<Rightarrow> [f])"
    using oe by (simp add: text_defs status_defs Let_def split: option.splits)
  show "nextManager (snd ?lr) = nextManager s1" using E(4) .
  show "argKey p' = argKey p \<and> argShouldGrace p' = argShouldGrace p \<longrightarrow>
            acquireThreadStatus_text p' s1 = acquireThreadStatus_text p s1"
    using acquire_existing_same_text[OF reg, of p'] by blast
qed


lemma phase_creating_call_governs:
  fixes zs0 zs zs' :: "phase_event list" and q0 q :: phase_params
  defines "z \<equiv> phase_run zs0 phase_init"
  defines "n \<equiv> nextManager (phase_run zs0 phase_init)"
  defines "z1 \<equiv> phase_run zs (snd (acquireThreadStatus_phase q0 (phase_run zs0 phase_init)))"
  defines "z2 \<equiv> phase_run zs' (snd (acquireThreadStatus_phase q
                    (phase_run zs (snd (acquireThreadStatus_phase q0 (phase_run zs0 phase_init))))))"
  assumes new: "managers z (prmKey q0) = None" and reg: "managers z1 (prmKey q) = Some n"
  shows "managers (snd (acquireThreadStatus_phase q0 z)) (prmKey q0) = Some n"
    and "hManager (handles (snd (acquireThreadStatus_phase q0 z)) (fst (acquireThreadStatus_phase q0 z))) = n"
    and "handles (snd (acquireThreadStatus_phase q z1)) (fst (acquireThreadStatus_phase q z1))
           = \<lparr>hManager = n, released = False, shouldGrace = prmShouldGrace q\<rparr>"
    and "managers (snd (acquireThreadStatus_phase q z1)) = managers z1"
    and "config_phase (heap z2 n) = created_config_phase q0"
    and "\<forall>f t. (n, f, t) \<in> set (pushLog z2) \<longrightarrow> f = prmPush q0"
    and "pushesInFlight (heap z2 n) \<noteq> 0 \<longrightarrow>
            errorLog (pushSettled n False z2)
              = errorLog z2 @ (case prmOnError q0 of None \<Rightarrow> [] | Some f \<Rightarrow> [f])"
    and "nextManager (snd (acquireThreadStatus_phase q z1)) = nextManager z1"
    and "prmKey q' = prmKey q \<and> prmShouldGrace q' = prmShouldGrace q \<longrightarrow>
            acquireThreadStatus_phase q' z1 = acquireThreadStatus_phase q z1"
proof -
  let ?cr = "acquireThreadStatus_phase q0 z"
  let ?lr = "acquireThreadStatus_phase q z1"
  note C = acquire_creates_phase[OF new]
  show "managers (snd ?cr) (prmKey q0) = Some n" using C(1) by (simp add: n_def z_def)
  show "hManager (handles (snd ?cr) (fst ?cr)) = n" using C(2) by (simp add: n_def z_def)
  have lt0: "n < nextManager (snd ?cr)" using C(4) by (simp add: n_def z_def)
  have c1: "config_phase (heap z1 n) = created_config_phase q0"
    using phase_config_run[OF lt0, of zs] C(3) by (simp add: z1_def z_def n_def)
  note E = acquire_existing_phase[OF reg]
  show "handles (snd ?lr) (fst ?lr) = \<lparr>hManager = n, released = False, shouldGrace = prmShouldGrace q\<rparr>"
    using E(1,2) by simp
  show "managers (snd ?lr) = managers z1" using E(3) .
  have wf1: "status_wf z1"
    using phase_reachable_ok(1)[of "zs0 @ Acquire_phase q0 # zs"]
    by (simp add: phase_run_append z1_def)
  have lt1: "n < nextManager (snd ?lr)"
    using wf1 reg by (simp add: status_wf_def E(4))
  have z2: "z2 = phase_run zs' (snd ?lr)" by (simp add: z2_def z1_def)
  show c2: "config_phase (heap z2 n) = created_config_phase q0"
    using phase_config_run[OF lt1, of zs'] E(5)[of n] c1 by (simp add: z2)
  have reach: "z2 = phase_run (zs0 @ Acquire_phase q0 # zs @ Acquire_phase q # zs') phase_init"
    by (simp add: phase_run_append z2_def)
  have ok: "push_log_ok z2" unfolding reach by (rule phase_reachable_ok(2))
  have fn: "pushFn (heap z2 n) = prmPush q0" and oe: "onError (heap z2 n) = prmOnError q0"
    using c2 by (simp_all add: config_phase_def created_config_phase_def)
  show "\<forall>f t. (n, f, t) \<in> set (pushLog z2) \<longrightarrow> f = prmPush q0"
    using ok fn by (auto simp: push_log_ok_def)
  show "pushesInFlight (heap z2 n) \<noteq> 0 \<longrightarrow>
            errorLog (pushSettled n False z2)
              = errorLog z2 @ (case prmOnError q0 of None \<Rightarrow> [] | Some f \<Rightarrow> [f])"
    using oe by (simp add: pushSettled_def reportError_def updManager_def split: option.splits)
  show "nextManager (snd ?lr) = nextManager z1" using E(4) .
  show "prmKey q' = prmKey q \<and> prmShouldGrace q' = prmShouldGrace q \<longrightarrow>
            acquireThreadStatus_phase q' z1 = acquireThreadStatus_phase q z1"
    using acquire_existing_same_phase[OF reg, of q'] by blast
qed

lemma ex_text_created:
  "managers (text_run [] text_init) (argKey text_params_example) = None"
  "nextManager (text_run [] text_init) = 0"
  "managers (text_run [SetStatus_text 0 ''a'']
      (snd (acquireThreadStatus_text text_params_example (text_run [] text_init))))
      (argKey text_params_other) = Some 0"
  "created_config_text text_params_example = (''C1:T1'', 7, 100, 5000, ''is thinking...'', None)"
  by (simp_all add: text_eval created_config_text_def)

lemma ex_phase_created:
  "managers (phase_run [] phase_init) (prmKey phase_params_example) = None"
  "nextManager (phase_run [] phase_init) = 0"
  "managers (phase_run [SetStatus_phase 0 thinking]
      (snd (acquireThreadStatus_phase phase_params_example (phase_run [] phase_init))))
      (prmKey phase_params_other) = Some 0"
  "created_config_phase phase_params_example = (''C1:T1'', 7, 5000, None)"
  by (simp_all add: phase_eval created_config_phase_def)

text \<open>
  Claim C10. Let a call of \<open>acquireThreadStatus\<close> in a reachable state, for a key that
  has no manager, create manager \<open>m\<close>, and let a later call find \<open>m\<close> registered under
  its key. The creating call registers \<open>m\<close> and returns a handle of it. The later call
  returns a handle of \<open>m\<close> that carries the \<open>shouldGrace\<close> of that call; it creates no
  manager and leaves the map as it is; and a call that differs only in the other
  arguments gives the very same result. After any further events the configuration of
  \<open>m\<close> is what the arguments of the creating call say, with the defaults where they
  give nothing; every push that \<open>m\<close> has made went to the push function of the creating
  call; a release that starts the grace window of \<open>m\<close> sets its text to the grace text
  of the creating call; and a failing push of \<open>m\<close> is reported to the \<open>onError\<close> of the
  creating call, or to nobody if that call gave none. The same holds for the phase
  variant, which has no grace text.
\<close>

theorem creating_call_config_governs:
  "(let s = text_run es0 text_init; m = nextManager s; c = acquireThreadStatus_text p0 s;
        s1 = text_run es (snd c); r = acquireThreadStatus_text p s1;
        s2 = text_run es' (snd r) in
      managers s (argKey p0) = None \<and> managers s1 (argKey p) = Some m \<longrightarrow>
        managers (snd c) (argKey p0) = Some m
      \<and> hManager (handles (snd c) (fst c)) = m
      \<and> handles (snd r) (fst r) = \<lparr>hManager = m, released = False, shouldGrace = argShouldGrace p\<rparr>
      \<and> managers (snd r) = managers s1
      \<and> nextManager (snd r) = nextManager s1
      \<and> (argKey p' = argKey p \<and> argShouldGrace p' = argShouldGrace p \<longrightarrow>
            acquireThreadStatus_text p' s1 = r)
      \<and> config_text (heap s2 m) = created_config_text p0
      \<and> (\<forall>f t. (m, f, t) \<in> set (pushLog s2) \<longrightarrow> f = argPush p0)
      \<and> (\<forall>h a. \<not> released (handles s2 h) \<and> hManager (handles s2 h) = m
            \<and> \<not> graceTimer (heap s2 m) \<and> graceTimer (heap (release_text h a s2) m) \<longrightarrow>
            currentText (heap (release_text h a s2) m)
              = (case argGraceText p0 of None \<Rightarrow> ''is thinking...'' | Some t \<Rightarrow> t))
      \<and> (ticksInFlight (heap s2 m) \<noteq> 0 \<longrightarrow>
            errorLog (tickSettled m False s2)
              = errorLog s2 @ (case argOnError p0 of None \<Rightarrow> [] | Some f \<Rightarrow> [f]))
      \<and> (oncesInFlight (heap s2 m) \<noteq> 0 \<longrightarrow>
            errorLog (onceSettled m False s2)
              = errorLog s2 @ (case argOnError p0 of None \<Rightarrow> [] | Some f \<Rightarrow> [f])))
   \<and> (let z = phase_run zs0 phase_init; n = nextManager z; c = acquireThreadStatus_phase q0 z;
        z1 = phase_run zs (snd c); r = acquireThreadStatus_phase q z1;
        z2 = phase_run zs' (snd r) in
      managers z (prmKey q0) = None \<and> managers z1 (prmKey q) = Some n \<longrightarrow>
        managers (snd c) (prmKey q0) = Some n
      \<and> hManager (handles (snd c) (fst c)) = n
      \<and> handles (snd r) (fst r) = \<lparr>hManager = n, released = False, shouldGrace = prmShouldGrace q\<rparr>
      \<and> managers (snd r) = managers z1
      \<and> nextManager (snd r) = nextManager z1
      \<and> (prmKey q' = prmKey q \<and> prmShouldGrace q' = prmShouldGrace q \<longrightarrow>
            acquireThreadStatus_phase q' z1 = r)
      \<and> config_phase (heap z2 n) = created_config_phase q0
      \<and> (\<forall>f t. (n, f, t) \<in> set (pushLog z2) \<longrightarrow> f = prmPush q0)
      \<and> (pushesInFlight (heap z2 n) \<noteq> 0 \<longrightarrow>
            errorLog (pushSettled n False z2)
              = errorLog z2 @ (case prmOnError q0 of None \<Rightarrow> [] | Some f \<Rightarrow> [f])))"
  unfolding Let_def
  apply (rule conjI)
   apply (rule impI, elim conjE, intro conjI)
             apply (erule (1) text_creating_call_governs(1))
            apply (erule (1) text_creating_call_governs(2))
           apply (erule (1) text_creating_call_governs(3))
          apply (erule (1) text_creating_call_governs(4))
         apply (erule (1) text_creating_call_governs(10))
        apply (erule (1) text_creating_call_governs(11))
       apply (erule (1) text_creating_call_governs(5))
      apply (erule (1) text_creating_call_governs(6))
     apply (erule (1) text_creating_call_governs(7))
    apply (erule (1) text_creating_call_governs(8))
   apply (erule (1) text_creating_call_governs(9))
  apply (rule impI, elim conjE, intro conjI)
          apply (erule (1) phase_creating_call_governs(1))
         apply (erule (1) phase_creating_call_governs(2))
        apply (erule (1) phase_creating_call_governs(3))
       apply (erule (1) phase_creating_call_governs(4))
      apply (erule (1) phase_creating_call_governs(8))
     apply (erule (1) phase_creating_call_governs(9))
    apply (erule (1) phase_creating_call_governs(5))
   apply (erule (1) phase_creating_call_governs(6))
  apply (erule (1) phase_creating_call_governs(7))
  done

theorem creating_call_config_governs_witness:
  "managers (text_run [] text_init) (argKey text_params_example) = None
   \<and> managers (text_run [SetStatus_text 0 ''a'']
        (snd (acquireThreadStatus_text text_params_example (text_run [] text_init))))
        (argKey text_params_other) = Some 0
   \<and> config_text (heap (text_run [SetStatus_text 1 ''x'']
        (snd (acquireThreadStatus_text text_params_other
           (text_run [SetStatus_text 0 ''a'']
              (snd (acquireThreadStatus_text text_params_example (text_run [] text_init))))))) 0)
       = (''C1:T1'', 7, 100, 5000, ''is thinking...'', None)
   \<and> managers (phase_run [] phase_init) (prmKey phase_params_example) = None
   \<and> managers (phase_run [SetStatus_phase 0 thinking]
        (snd (acquireThreadStatus_phase phase_params_example (phase_run [] phase_init))))
        (prmKey phase_params_other) = Some 0
   \<and> config_phase (heap (phase_run [SetStatus_phase 1 thinking]
        (snd (acquireThreadStatus_phase phase_params_other
           (phase_run [SetStatus_phase 0 thinking]
              (snd (acquireThreadStatus_phase phase_params_example (phase_run [] phase_init))))))) 0)
       = (''C1:T1'', 7, 5000, None)"
  using creating_call_config_governs[of "[]" text_params_example "[SetStatus_text 0 ''a'']"
      text_params_other "[SetStatus_text 1 ''x'']" text_params_example
      "[]" phase_params_example "[SetStatus_phase 0 thinking]"
      phase_params_other "[SetStatus_phase 1 thinking]" phase_params_example]
    ex_text_created ex_phase_created
  unfolding Let_def by metis

end
